theory Spec2Isabelle
  imports Main "HOL-Library.Sublist" "HOL-Library.Word"
begin

section \<open>The scripts\<close>

subsection \<open>Python values\<close>

text \<open>
  A Python \<^verbatim>\<open>str\<close> is a sequence of Unicode code points; a code point is a natural
  number. The files on disk hold bytes. String literals of the scripts are ASCII, so they
  are written as HOL strings and converted with \<open>py_str\<close>.
\<close>

type_synonym codepoint = nat

type_synonym str = "codepoint list"

type_synonym byte = "8 word"

definition py_str :: "string \<Rightarrow> str" where
  "py_str cs = map of_char cs"

text \<open>
  The exceptions the scripts can meet. \<open>Unmodelled\<close> is not a Python outcome: it marks an
  input of \<^verbatim>\<open>re.sub\<close> outside the fragment of the regular-expression language that this
  development gives a semantics to (see \<open>re_compile\<close>).
\<close>

datatype py_error =
    FileNotFoundError
  | PermissionError
  | UnicodeDecodeError
  | UnicodeEncodeError
  | ReError

datatype failure = Raised py_error | Unmodelled

subsection \<open>The regular expressions of \<^verbatim>\<open>re.sub\<close>\<close>

text \<open>
  The fragment: literal characters, \<^verbatim>\<open>.\<close>, the greedy postfix operators
  \<^verbatim>\<open>* + ?\<close> on a single character, alternation \<^verbatim>\<open>|\<close>, and a backslash before
  a character that is not an ASCII letter or digit. Groups, classes, counted repetition,
  anchors, lazy operators and the letter escapes are outside the fragment.
\<close>

datatype atom = Lit codepoint | Dot

datatype quant = One | Opt | Star | Plus

type_synonym item = "atom \<times> quant"

type_synonym regex = "item list list"

text \<open>The special characters, as the documentation of the \<^verbatim>\<open>re\<close> module lists them.\<close>

definition metachars :: str where
  "metachars = py_str ''.^$*+?{}[]'' @ [92] @ py_str ''|()''"

definition is_meta :: "codepoint \<Rightarrow> bool" where
  "is_meta c = (c \<in> set metachars)"

definition is_ascii_alnum :: "codepoint \<Rightarrow> bool" where
  "is_ascii_alnum c = ((48 \<le> c \<and> c \<le> 57) \<or> (65 \<le> c \<and> c \<le> 90) \<or> (97 \<le> c \<and> c \<le> 122))"

definition quant_of :: "codepoint \<Rightarrow> quant" where
  "quant_of c = (if c = 42 then Star else if c = 43 then Plus else Opt)"

text \<open>
  The parser reads the pattern left to right. \<open>cur\<close> is the current alternative, last item
  first; \<open>alts\<close> holds the finished alternatives, last one first.
\<close>

fun parse_items :: "str \<Rightarrow> item list \<Rightarrow> item list list \<Rightarrow> failure + regex" where
  "parse_items [] cur alts = Inr (rev (rev cur # alts))"
| "parse_items (c # cs) cur alts =
     (if c = 124 then parse_items cs [] (rev cur # alts)
      else if c = 42 \<or> c = 43 \<or> c = 63 then
        (case cur of
           [] \<Rightarrow> Inl (Raised ReError)
         | (a, One) # cur' \<Rightarrow> parse_items cs ((a, quant_of c) # cur') alts
         | _ \<Rightarrow> Inl Unmodelled)
      else if c = 92 then
        (case cs of
           [] \<Rightarrow> Inl (Raised ReError)
         | d # ds \<Rightarrow>
             if is_ascii_alnum d then Inl Unmodelled
             else parse_items ds ((Lit d, One) # cur) alts)
      else if c = 46 then parse_items cs ((Dot, One) # cur) alts
      else if is_meta c \<and> c \<noteq> 93 \<and> c \<noteq> 125 then Inl Unmodelled
      else parse_items cs ((Lit c, One) # cur) alts)"

definition re_compile :: "str \<Rightarrow> failure + regex" where
  "re_compile pattern = parse_items pattern [] []"

text \<open>
  Matching at the start of a string. Each function returns the remainders of the string
  after every way the expression can match there, in the order a backtracking matcher
  tries them (greedy operators take the longest repetition first, alternatives are tried
  left to right).
\<close>

fun atom_ok :: "atom \<Rightarrow> codepoint \<Rightarrow> bool" where
  "atom_ok (Lit a) c = (c = a)"
| "atom_ok Dot c = (c \<noteq> 10)"

fun match_star :: "atom \<Rightarrow> str \<Rightarrow> str list" where
  "match_star a [] = [[]]"
| "match_star a (c # cs) = (if atom_ok a c then match_star a cs @ [c # cs] else [c # cs])"

fun match_item :: "item \<Rightarrow> str \<Rightarrow> str list" where
  "match_item (a, One) s = (case s of [] \<Rightarrow> [] | c # cs \<Rightarrow> if atom_ok a c then [cs] else [])"
| "match_item (a, Opt) s = (case s of [] \<Rightarrow> [[]] | c # cs \<Rightarrow> if atom_ok a c then [cs, s] else [s])"
| "match_item (a, Star) s = match_star a s"
| "match_item (a, Plus) s = (case s of [] \<Rightarrow> [] | c # cs \<Rightarrow> if atom_ok a c then match_star a cs else [])"

fun match_seq :: "item list \<Rightarrow> str \<Rightarrow> str list" where
  "match_seq [] s = [s]"
| "match_seq (it # its) s = concat (map (match_seq its) (match_item it s))"

definition match_alts :: "regex \<Rightarrow> str \<Rightarrow> str list" where
  "match_alts re s = concat (map (\<lambda>sq. match_seq sq s) re)"

lemma match_star_suffix: "t \<in> set (match_star a s) \<Longrightarrow> suffix t s"
  by (induction s) (auto simp: suffix_Cons split: if_splits)

lemma match_item_suffix: "t \<in> set (match_item it s) \<Longrightarrow> suffix t s"
  by (cases it; cases "snd it"; cases s)
     (auto simp: suffix_Cons split: if_splits dest: match_star_suffix)

lemma match_seq_suffix: "t \<in> set (match_seq its s) \<Longrightarrow> suffix t s"
proof (induction its arbitrary: s)
  case Nil
  then show ?case by simp
next
  case (Cons it its)
  then obtain u where u: "u \<in> set (match_item it s)" and t: "t \<in> set (match_seq its u)"
    by auto
  from Cons.IH [OF t] match_item_suffix [OF u] show ?case
    by (rule suffix_order.trans)
qed

lemma match_alts_suffix: "t \<in> set (match_alts re s) \<Longrightarrow> suffix t s"
  by (auto simp: match_alts_def dest: match_seq_suffix)

text \<open>
  A match found at the current position leaves less of the string, or the same string
  with the flag set: the measure of the loops below.
\<close>

lemma find_match_decreases:
  assumes "find (\<lambda>t. \<not> adv \<or> t \<noteq> s) (match_alts re s) = Some t"
  shows "2 * length t + (if t = s then 0 else 1) < 2 * length s + (if adv then 0 else (1::nat))"
proof -
  from assms have mem: "t \<in> set (match_alts re s)" and ok: "\<not> adv \<or> t \<noteq> s"
    by (auto simp: find_Some_iff)
  from mem have "suffix t s" by (rule match_alts_suffix)
  then obtain u where u: "s = u @ t" by (auto simp: suffix_def)
  show ?thesis
  proof (cases "t = s")
    case True
    with ok show ?thesis by simp
  next
    case False
    with u have "u \<noteq> []" by auto
    with u have "length t < length s" by simp
    with False show ?thesis by simp
  qed
qed

text \<open>
  The substitution loop of \<^verbatim>\<open>re.sub\<close> on the rest \<open>s\<close> of the string. The search tries
  the current position first and moves right by one character when nothing matches there;
  the text before a match is copied. \<open>adv\<close> is the matcher's \<^verbatim>\<open>must_advance\<close> flag: it
  is set after an empty match, and the next match may then not be empty at the same
  position.
\<close>

function sub_loop :: "regex \<Rightarrow> str \<Rightarrow> bool \<Rightarrow> str \<Rightarrow> str" where
  "sub_loop re repl adv s =
     (case find (\<lambda>t. \<not> adv \<or> t \<noteq> s) (match_alts re s) of
        Some t \<Rightarrow> repl @ sub_loop re repl (t = s) t
      | None \<Rightarrow> (case s of [] \<Rightarrow> [] | c # cs \<Rightarrow> c # sub_loop re repl False cs))"
  by pat_completeness auto
termination
proof (relation "measure (\<lambda>(re, repl, adv, s). 2 * length s + (if adv then 0 else 1))")
  show "wf (measure (\<lambda>(re, repl, adv, s). 2 * length s + (if adv then 0 else 1)))"
    by simp
next
  fix re :: regex and repl :: str and adv :: bool and s t :: str
  assume "find (\<lambda>t. \<not> adv \<or> t \<noteq> s) (match_alts re s) = Some t"
  from find_match_decreases [OF this]
  show "((re, repl, t = s, t), (re, repl, adv, s))
          \<in> measure (\<lambda>(re, repl, adv, s). 2 * length s + (if adv then 0 else 1))"
    by (simp split: if_splits)
next
  fix re :: regex and repl :: str and adv :: bool and s :: str and c :: codepoint and cs :: str
  assume "s = c # cs"
  then show "((re, repl, False, cs), (re, repl, adv, s))
          \<in> measure (\<lambda>(re, repl, adv, s). 2 * length s + (if adv then 0 else 1))"
    by simp
qed

declare sub_loop.simps [simp del]

text \<open>
  The replacement template: without a backslash it stands for itself. Templates with
  escapes or group references are outside the fragment.
\<close>

definition expand_template :: "str \<Rightarrow> failure + str" where
  "expand_template repl = (if 92 \<in> set repl then Inl Unmodelled else Inr repl)"

definition re_sub :: "str \<Rightarrow> str \<Rightarrow> str \<Rightarrow> failure + str" where
  "re_sub pattern repl string =
     (case re_compile pattern of
        Inl e \<Rightarrow> Inl e
      | Inr re \<Rightarrow>
          (case expand_template repl of
             Inl e \<Rightarrow> Inl e
           | Inr t \<Rightarrow> Inr (sub_loop re t False string)))"

text \<open>
  The number of matches the substitution loop of \<^verbatim>\<open>re.sub\<close> replaces (the count that
  \<^verbatim>\<open>re.subn\<close> reports): the loop of \<open>sub_loop\<close>, counting instead of building the result.
\<close>

function sub_count :: "regex \<Rightarrow> bool \<Rightarrow> str \<Rightarrow> nat" where
  "sub_count re adv s =
     (case find (\<lambda>t. \<not> adv \<or> t \<noteq> s) (match_alts re s) of
        Some t \<Rightarrow> Suc (sub_count re (t = s) t)
      | None \<Rightarrow> (case s of [] \<Rightarrow> 0 | c # cs \<Rightarrow> sub_count re False cs))"
  by pat_completeness auto
termination
proof (relation "measure (\<lambda>(re, adv, s). 2 * length s + (if adv then 0 else 1))")
  show "wf (measure (\<lambda>(re, adv, s). 2 * length s + (if adv then 0 else 1)))"
    by simp
next
  fix re :: regex and adv :: bool and s t :: str
  assume "find (\<lambda>t. \<not> adv \<or> t \<noteq> s) (match_alts re s) = Some t"
  from find_match_decreases [OF this]
  show "((re, t = s, t), (re, adv, s))
          \<in> measure (\<lambda>(re, adv, s). 2 * length s + (if adv then 0 else 1))"
    by (simp split: if_splits)
next
  fix re :: regex and adv :: bool and s :: str and c :: codepoint and cs :: str
  assume "s = c # cs"
  then show "((re, False, cs), (re, adv, s))
          \<in> measure (\<lambda>(re, adv, s). 2 * length s + (if adv then 0 else 1))"
    by simp
qed

declare sub_count.simps [simp del]

subsection \<open>UTF-8\<close>

text \<open>
  The strict UTF-8 codec of Python. The decoder rejects overlong forms, surrogates, code
  points above \<^verbatim>\<open>U+10FFFF\<close> and truncated sequences; the encoder rejects surrogates.
\<close>

definition continuation :: "nat \<Rightarrow> bool" where
  "continuation n = (128 \<le> n \<and> n \<le> 191)"

fun utf8_decode :: "byte list \<Rightarrow> str option" where
  "utf8_decode [] = Some []"
| "utf8_decode (b0 # bs) =
     (let n0 = unat b0 in
      if n0 < 128 then map_option ((#) n0) (utf8_decode bs)
      else if 194 \<le> n0 \<and> n0 \<le> 223 then
        (case bs of
           b1 # rest \<Rightarrow>
             (let n1 = unat b1 in
              if continuation n1
              then map_option ((#) ((n0 - 192) * 64 + (n1 - 128))) (utf8_decode rest)
              else None)
         | _ \<Rightarrow> None)
      else if 224 \<le> n0 \<and> n0 \<le> 239 then
        (case bs of
           b1 # b2 # rest \<Rightarrow>
             (let n1 = unat b1; n2 = unat b2 in
              if (if n0 = 224 then 160 else 128) \<le> n1 \<and> n1 \<le> (if n0 = 237 then 159 else 191)
                 \<and> continuation n2
              then map_option ((#) ((n0 - 224) * 4096 + (n1 - 128) * 64 + (n2 - 128)))
                     (utf8_decode rest)
              else None)
         | _ \<Rightarrow> None)
      else if 240 \<le> n0 \<and> n0 \<le> 244 then
        (case bs of
           b1 # b2 # b3 # rest \<Rightarrow>
             (let n1 = unat b1; n2 = unat b2; n3 = unat b3 in
              if (if n0 = 240 then 144 else 128) \<le> n1 \<and> n1 \<le> (if n0 = 244 then 143 else 191)
                 \<and> continuation n2 \<and> continuation n3
              then map_option
                     ((#) ((n0 - 240) * 262144 + (n1 - 128) * 4096 + (n2 - 128) * 64 + (n3 - 128)))
                     (utf8_decode rest)
              else None)
         | _ \<Rightarrow> None)
      else None)"

definition encode_codepoint :: "codepoint \<Rightarrow> byte list option" where
  "encode_codepoint c =
     (if c < 128 then Some [of_nat c]
      else if c < 2048 then Some [of_nat (192 + c div 64), of_nat (128 + c mod 64)]
      else if 55296 \<le> c \<and> c \<le> 57343 then None
      else if c < 65536 then
        Some [of_nat (224 + c div 4096), of_nat (128 + c div 64 mod 64), of_nat (128 + c mod 64)]
      else if c < 1114112 then
        Some [of_nat (240 + c div 262144), of_nat (128 + c div 4096 mod 64),
              of_nat (128 + c div 64 mod 64), of_nat (128 + c mod 64)]
      else None)"

fun utf8_encode :: "str \<Rightarrow> byte list option" where
  "utf8_encode [] = Some []"
| "utf8_encode (c # cs) =
     (case encode_codepoint c of
        None \<Rightarrow> None
      | Some bs \<Rightarrow> map_option ((@) bs) (utf8_encode cs))"

subsection \<open>Text files\<close>

text \<open>
  Reading in text mode with the default \<^verbatim>\<open>newline=None\<close> translates \<^verbatim>\<open>\r\n\<close> and a lone
  \<^verbatim>\<open>\r\<close> to \<^verbatim>\<open>\n\<close>; writing translates \<^verbatim>\<open>\n\<close> to the line separator of the platform.
\<close>

fun read_newlines :: "str \<Rightarrow> str" where
  "read_newlines [] = []"
| "read_newlines [c] = [if c = 13 then 10 else c]"
| "read_newlines (c # d # cs) =
     (if c = 13 \<and> d = 10 then 10 # read_newlines cs
      else if c = 13 then 10 # read_newlines (d # cs)
      else c # read_newlines (d # cs))"

datatype platform = Posix | Windows

fun linesep :: "platform \<Rightarrow> str" where
  "linesep Posix = [10]"
| "linesep Windows = [13, 10]"

definition write_newlines :: "platform \<Rightarrow> str \<Rightarrow> str" where
  "write_newlines os s = concat (map (\<lambda>c. if c = 10 then linesep os else [c]) s)"

text \<open>
  The world a script runs in: the files by path (a missing file is \<open>None\<close>), each with its
  permissions and bytes; the platform; the strings printed so far, and which strings the
  encoding of the standard output can represent.
\<close>

record disk_file =
  readable :: bool
  writable :: bool
  data :: "byte list"

record world =
  files :: "string \<rightharpoonup> disk_file"
  os :: platform
  stdout :: "str list"
  stdout_encodes :: "str \<Rightarrow> bool"

text \<open>The outcome of a run: the exception that ended it, if any, and the world it left.\<close>

type_synonym outcome = "failure option \<times> world"

definition open_read :: "world \<Rightarrow> string \<Rightarrow> failure + byte list" where
  "open_read w path =
     (case files w path of
        None \<Rightarrow> Inl (Raised FileNotFoundError)
      | Some f \<Rightarrow> if readable f then Inr (data f) else Inl (Raised PermissionError))"

definition read_text :: "byte list \<Rightarrow> failure + str" where
  "read_text bytes =
     (case utf8_decode bytes of
        None \<Rightarrow> Inl (Raised UnicodeDecodeError)
      | Some text \<Rightarrow> Inr (read_newlines text))"

text \<open>Opening for writing truncates an existing file and creates a missing one.\<close>

definition open_write :: "world \<Rightarrow> string \<Rightarrow> failure + world" where
  "open_write w path =
     (case files w path of
        None \<Rightarrow>
          Inr (w\<lparr>files := (files w)(path \<mapsto> \<lparr>readable = True, writable = True, data = []\<rparr>)\<rparr>)
      | Some f \<Rightarrow>
          if writable f then Inr (w\<lparr>files := (files w)(path \<mapsto> f\<lparr>data := []\<rparr>)\<rparr>)
          else Inl (Raised PermissionError))"

definition write_text :: "world \<Rightarrow> string \<Rightarrow> str \<Rightarrow> failure + world" where
  "write_text w path content =
     (case utf8_encode (write_newlines (os w) content) of
        None \<Rightarrow> Inl (Raised UnicodeEncodeError)
      | Some bytes \<Rightarrow>
          Inr (w\<lparr>files := (files w)(path \<mapsto>
                 (case files w path of
                    None \<Rightarrow> \<lparr>readable = True, writable = True, data = bytes\<rparr>
                  | Some f \<Rightarrow> f\<lparr>data := data f @ bytes\<rparr>))\<rparr>))"

definition print :: "world \<Rightarrow> str \<Rightarrow> outcome" where
  "print w message =
     (if stdout_encodes w message then (None, w\<lparr>stdout := stdout w @ [message]\<rparr>)
      else (Some (Raised UnicodeEncodeError), w))"

subsection \<open>The two scripts\<close>

definition editor_replacements :: "(str \<times> str) list" where
  \<open>editor_replacements =
    [(py_str ''className="timetable-grid"'', py_str ''className="editor-timetable-grid"''),
     (py_str ''className="subject-code"'', py_str ''className="editor-subject-code"'')]\<close>

definition viewer_replacements :: "(str \<times> str) list" where
  \<open>viewer_replacements =
    [(py_str ''className="empty-cell"'', py_str ''className="viewer-empty-cell"''),
     (py_str ''className="break-cell"'', py_str ''className="viewer-break-cell"''),
     (py_str ''className="lab-cell"'', py_str ''className="viewer-lab-cell"''),
     (py_str ''className="subject-code"'', py_str ''className="viewer-subject-code"''),
     (py_str ''className="teacher-name"'', py_str ''className="viewer-teacher-name"''),
     (py_str ''className="cell-content"'', py_str ''className="viewer-cell-content"''),
     (py_str ''className="cell-content-compact"'', py_str ''className="viewer-cell-content-compact"''),
     (py_str ''className="day-label"'', py_str ''className="viewer-day-label"''),
     (py_str ''className="time-header"'', py_str ''className="viewer-time-header"''),
     (py_str ''className="day-header"'', py_str ''className="viewer-day-header"''),
     (py_str ''className="fixed-badge"'', py_str ''className="viewer-fixed-badge"''),
     (py_str ''className="classroom-badge'', py_str ''className="viewer-classroom-badge''),
     (py_str ''className="break-icon"'', py_str ''className="viewer-break-icon"''),
     (py_str ''className="break-label"'', py_str ''className="viewer-break-label"''),
     (py_str ''className="time-range"'', py_str ''className="viewer-time-range"''),
     (py_str ''className="lab-content-horizontal"'', py_str ''className="viewer-lab-content-horizontal"''),
     (py_str ''className="batch-compact"'', py_str ''className="viewer-batch-compact"''),
     (py_str ''className="batch-name-compact"'', py_str ''className="viewer-batch-name-compact"''),
     (py_str ''className="batch-lab-compact"'', py_str ''className="viewer-batch-lab-compact"''),
     (py_str ''className="batch-room-compact"'', py_str ''className="viewer-batch-room-compact"''),
     (py_str ''className="batch-teacher-compact"'', py_str ''className="viewer-batch-teacher-compact"''),
     (py_str ''className="timetable-grid"'', py_str ''className="viewer-timetable-grid"'')]\<close>

text \<open>
  The loop \<^verbatim>\<open>for pattern, replacement in replacements: content = re.sub(...)\<close>. An
  exception of \<^verbatim>\<open>re.sub\<close> ends it.
\<close>

fun apply_replacements :: "(str \<times> str) list \<Rightarrow> str \<Rightarrow> failure + str" where
  "apply_replacements [] content = Inr content"
| "apply_replacements ((pattern, replacement) # rest) content =
     (case re_sub pattern replacement content of
        Inl e \<Rightarrow> Inl e
      | Inr content' \<Rightarrow> apply_replacements rest content')"

text \<open>The matches replaced over the whole loop of a script.\<close>

fun total_matches :: "(str \<times> str) list \<Rightarrow> str \<Rightarrow> nat" where
  "total_matches [] content = 0"
| "total_matches ((pattern, replacement) # rest) content =
     (case re_compile pattern of
        Inl e \<Rightarrow> 0
      | Inr re \<Rightarrow>
          (case re_sub pattern replacement content of
             Inl e \<Rightarrow> 0
           | Inr content' \<Rightarrow> sub_count re False content + total_matches rest content'))"

text \<open>
  The script: read the file, apply the replacements, write the file back, print the
  acknowledgment. Nothing catches an exception, so the first one ends the run.
\<close>

definition run_script :: "string \<Rightarrow> (str \<times> str) list \<Rightarrow> str \<Rightarrow> world \<Rightarrow> outcome" where
  "run_script path replacements message w =
     (case open_read w path of
        Inl e \<Rightarrow> (Some e, w)
      | Inr bytes \<Rightarrow>
          (case read_text bytes of
             Inl e \<Rightarrow> (Some e, w)
           | Inr content \<Rightarrow>
               (case apply_replacements replacements content of
                  Inl e \<Rightarrow> (Some e, w)
                | Inr content' \<Rightarrow>
                    (case open_write w path of
                       Inl e \<Rightarrow> (Some e, w)
                     | Inr w1 \<Rightarrow>
                         (case write_text w1 path content' of
                            Inl e \<Rightarrow> (Some e, w1)
                          | Inr w2 \<Rightarrow> print w2 message)))))"

definition editor_path :: string where
  "editor_path = ''src/components/TimetableEditor.jsx''"

definition viewer_path :: string where
  "viewer_path = ''src/components/TimetableViewer.jsx''"

definition editor_message :: str where
  "editor_message =
     9989 # py_str '' Successfully updated TimetableEditor.jsx with editor- prefixes''"

definition viewer_message :: str where
  "viewer_message =
     9989 # py_str '' Successfully updated TimetableViewer.jsx with viewer- prefixes''"

definition update_editor_classes :: "world \<Rightarrow> outcome" where
  "update_editor_classes = run_script editor_path editor_replacements editor_message"

definition update_viewer_classes :: "world \<Rightarrow> outcome" where
  "update_viewer_classes = run_script viewer_path viewer_replacements viewer_message"

text \<open>The two scripts, each with its path, its rule list and its acknowledgment.\<close>

definition scripts :: "((world \<Rightarrow> outcome) \<times> string \<times> (str \<times> str) list \<times> str) set" where
  "scripts =
     {(update_editor_classes, editor_path, editor_replacements, editor_message),
      (update_viewer_classes, viewer_path, viewer_replacements, viewer_message)}"

section \<open>Notions of the specification\<close>

subsection \<open>Literal replacement\<close>

text \<open>
  Python's \<^verbatim>\<open>str.replace(old, new)\<close>: every occurrence of \<open>old\<close>, found left to right
  without overlap, becomes \<open>new\<close>. An empty \<open>old\<close> matches before every character and
  at the end.
\<close>

function str_replace :: "str \<Rightarrow> str \<Rightarrow> str \<Rightarrow> str" where
  "str_replace old new s =
     (if old = [] then new @ concat (map (\<lambda>c. c # new) s)
      else if s = [] then []
      else if prefix old s then new @ str_replace old new (drop (length old) s)
      else hd s # str_replace old new (tl s))"
  by pat_completeness auto
termination
  by (relation "measure (\<lambda>(old, new, s). length s)") auto

declare str_replace.simps [simp del]

text \<open>
  Python's \<^verbatim>\<open>str.count(old)\<close>: the number of occurrences of \<open>old\<close> found left to right
  without overlap, which is the number of replacements \<open>str_replace\<close> makes.
\<close>

function str_count :: "str \<Rightarrow> str \<Rightarrow> nat" where
  "str_count old s =
     (if old = [] then length s + 1
      else if s = [] then 0
      else if prefix old s then Suc (str_count old (drop (length old) s))
      else str_count old (tl s))"
  by pat_completeness auto
termination
  by (relation "measure (\<lambda>(old, s). length s)") auto

declare str_count.simps [simp del]

text \<open>The loop with \<open>str_replace\<close> in the place of \<^verbatim>\<open>re.sub\<close>.\<close>

fun replace_all :: "(str \<times> str) list \<Rightarrow> str \<Rightarrow> str" where
  "replace_all [] s = s"
| "replace_all ((old, new) # rest) s = replace_all rest (str_replace old new s)"

fun count_all :: "(str \<times> str) list \<Rightarrow> str \<Rightarrow> nat" where
  "count_all [] s = 0"
| "count_all ((old, new) # rest) s = str_count old s + count_all rest (str_replace old new s)"

text \<open>Running the loop again on its own result.\<close>

definition apply_twice :: "(str \<times> str) list \<Rightarrow> str \<Rightarrow> failure + str" where
  "apply_twice R s =
     (case apply_replacements R s of
        Inl e \<Rightarrow> Inl e
      | Inr t \<Rightarrow> apply_replacements R t)"

subsection \<open>Global substitution, rule by rule\<close>

text \<open>
  One rule: every occurrence of the pattern, found left to right without overlap, is
  replaced. Either the pattern does not occur and the string stays, or the string is
  \<open>u @ p @ v\<close> where this occurrence of \<open>p\<close> is the leftmost one (no occurrence begins
  before it), it becomes \<open>r\<close>, and the substitution goes on in \<open>v\<close>. Characters are compared
  by equality, so the matching is case-sensitive, and \<open>u\<close> is arbitrary, so it is
  unanchored.
\<close>

inductive global_subst :: "str \<Rightarrow> str \<Rightarrow> str \<Rightarrow> str \<Rightarrow> bool" for p r where
  no_match: "\<not> sublist p s \<Longrightarrow> global_subst p r s s"
| leftmost: "\<not> sublist p (u @ butlast p) \<Longrightarrow> global_subst p r v t \<Longrightarrow>
     global_subst p r (u @ p @ v) (u @ r @ t)"

text \<open>The rules one at a time, in list order, each on the result of the one before.\<close>

inductive in_order :: "(str \<times> str) list \<Rightarrow> str \<Rightarrow> str \<Rightarrow> bool" where
  finished: "in_order [] s s"
| next_rule: "global_subst p r s s' \<Longrightarrow> in_order R s' t \<Longrightarrow> in_order ((p, r) # R) s t"

subsection \<open>Simultaneous application\<close>

text \<open>
  All rules at once, in a single pass over the original string: at each position the
  first rule of the list whose pattern begins there is applied, and the scan goes on after
  the occurrence. Replacement text is not scanned again.
\<close>

fun first_match :: "(str \<times> str) list \<Rightarrow> str \<Rightarrow> (str \<times> str) option" where
  "first_match [] s = None"
| "first_match ((p, r) # R) s =
     (if p \<noteq> [] \<and> prefix p s then Some (p, r) else first_match R s)"

lemma first_match_Some: "first_match R s = Some (p, r) \<Longrightarrow> p \<noteq> [] \<and> prefix p s"
  by (induction R) (auto split: if_splits)

function simultaneous :: "(str \<times> str) list \<Rightarrow> str \<Rightarrow> str" where
  "simultaneous R s =
     (case s of
        [] \<Rightarrow> []
      | c # cs \<Rightarrow>
          (case first_match R s of
             Some (p, r) \<Rightarrow> r @ simultaneous R (drop (length p) s)
           | None \<Rightarrow> c # simultaneous R cs))"
  by pat_completeness auto
termination
proof (relation "measure (\<lambda>(R, s). length s)")
  show "wf (measure (\<lambda>(R, s). length s))" by simp
next
  fix R :: "(str \<times> str) list" and s :: str and c cs x p r
  assume "s = c # cs" and "first_match R s = Some x" and "(p, r) = x"
  then have "p \<noteq> []"
    using first_match_Some [of R s p r] by simp
  with \<open>s = c # cs\<close> show "((R, drop (length p) s), (R, s)) \<in> measure (\<lambda>(R, s). length s)"
    by simp
next
  fix R :: "(str \<times> str) list" and s :: str and c cs
  assume "s = c # cs"
  then show "((R, cs), (R, s)) \<in> measure (\<lambda>(R, s). length s)" by simp
qed

declare simultaneous.simps [simp del]

subsection \<open>Plain rules\<close>

definition plain :: "str \<Rightarrow> bool" where
  "plain p = (\<forall>c \<in> set p. \<not> is_meta c)"

definition lits :: "str \<Rightarrow> item list" where
  "lits p = map (\<lambda>c. (Lit c, One)) p"

definition rules_plain :: "(str \<times> str) list \<Rightarrow> bool" where
  "rules_plain R = (\<forall>(p, r) \<in> set R. plain p \<and> 92 \<notin> set r)"

definition ascii_rules :: "(str \<times> str) list \<Rightarrow> bool" where
  "ascii_rules R = (\<forall>(p, r) \<in> set R. p \<noteq> [] \<and> (\<forall>c \<in> set r. c < 128))"

subsection \<open>Occurrences and overlaps\<close>

text \<open>
  \<open>comparable x y\<close>: one of the two strings is a prefix of the other.
  \<open>can_start_in q a\<close>: in some string that begins with \<open>a\<close>, an occurrence of \<open>q\<close> begins
  at a position inside \<open>a\<close>.
\<close>

fun comparable :: "'a list \<Rightarrow> 'a list \<Rightarrow> bool" where
  "comparable [] y = True"
| "comparable (a # x) [] = True"
| "comparable (a # x) (b # y) = (a = b \<and> comparable x y)"

fun can_start_in :: "'a list \<Rightarrow> 'a list \<Rightarrow> bool" where
  "can_start_in q [] = False"
| "can_start_in q (c # a) = (comparable q (c # a) \<or> can_start_in q a)"

text \<open>
  \<open>straddles p x\<close>: an occurrence of \<open>p\<close> can begin inside \<open>x\<close> and end after it.
\<close>

fun straddles :: "'a list \<Rightarrow> 'a list \<Rightarrow> bool" where
  "straddles p [] = False"
| "straddles p (c # x) = (strict_prefix (c # x) p \<or> straddles p x)"

text \<open>
  \<open>compatible R\<close>: every pattern of \<open>R\<close> is non-empty, and no pattern and no replacement of
  \<open>R\<close>, of the same rule or not, can begin inside the other.
\<close>

definition separate :: "str \<Rightarrow> str \<Rightarrow> bool" where
  "separate q r = (\<not> can_start_in r q \<and> \<not> can_start_in q r)"

definition compatible :: "(str \<times> str) list \<Rightarrow> bool" where
  "compatible R = (\<forall>(q, r') \<in> set R. q \<noteq> [] \<and> (\<forall>(p, r) \<in> set R. separate q r))"

definition absent :: "(str \<times> str) list \<Rightarrow> str \<Rightarrow> bool" where
  "absent R s = (\<forall>(p, r) \<in> set R. \<not> sublist p s)"

text \<open>
  \<open>isolated R x\<close>: at every step of the loop over \<open>R\<close>, no occurrence of the pattern can lie
  partly inside and partly outside what \<open>x\<close> has become.
\<close>

fun isolated :: "(str \<times> str) list \<Rightarrow> str \<Rightarrow> bool" where
  "isolated [] x = True"
| "isolated ((p, r) # R) x =
     (p \<noteq> [] \<and> \<not> can_start_in x (tl p) \<and> \<not> straddles p x \<and> isolated R (str_replace p r x))"

subsection \<open>Insertion of a prefix\<close>

text \<open>
  \<open>prefixing K V R\<close>: every pattern of \<open>R\<close> begins with \<open>K\<close> and goes on with a character
  other than the first of \<open>V\<close>, every replacement is its pattern with \<open>V\<close> inserted after
  \<open>K\<close>, and \<open>K\<close> cannot begin at a later position of a pattern, of a replacement or of
  \<open>K @ V\<close>.
\<close>

definition prefixing :: "str \<Rightarrow> str \<Rightarrow> (str \<times> str) list \<Rightarrow> bool" where
  "prefixing K V R =
     (K \<noteq> [] \<and> V \<noteq> [] \<and> \<not> can_start_in K (tl (K @ V)) \<and>
      (\<forall>(p, r) \<in> set R.
         prefix K p \<and> r = K @ V @ drop (length K) p \<and>
         length K < length p \<and> p ! length K \<noteq> hd V \<and>
         \<not> can_start_in K (tl p) \<and> \<not> can_start_in K (tl r)))"

definition class_attr :: str where
  \<open>class_attr = py_str ''className="''\<close>

text \<open>
  \<open>inserted_at R K V n s t\<close>: reading \<open>s\<close> from left to right, at every position where a
  pattern \<open>K @ m\<close> of \<open>R\<close> begins, \<open>t\<close> has \<open>V\<close> inserted immediately after the \<open>K\<close> of that
  occurrence, and no pattern of \<open>R\<close> can begin at a later position of the occurrence; at
  every position where no pattern of \<open>R\<close> begins, \<open>t\<close> has the character of \<open>s\<close>. \<open>n\<close> is the
  number of insertions.
\<close>

inductive inserted_at :: "(str \<times> str) list \<Rightarrow> str \<Rightarrow> str \<Rightarrow> nat \<Rightarrow> str \<Rightarrow> str \<Rightarrow> bool"
  for R K V where
  at_end: "inserted_at R K V 0 [] []"
| at_match: "(K @ m, r) \<in> set R \<Longrightarrow> \<forall>(q, r') \<in> set R. \<not> can_start_in q (tl (K @ m)) \<Longrightarrow>
     inserted_at R K V n s t \<Longrightarrow> inserted_at R K V (Suc n) (K @ m @ s) (K @ V @ m @ t)"
| no_match: "\<forall>(q, r') \<in> set R. \<not> prefix q (c # s) \<Longrightarrow>
     inserted_at R K V n s t \<Longrightarrow> inserted_at R K V n (c # s) (c # t)"

text \<open>
  \<open>occurrences R s\<close>: the number of positions of \<open>s\<close> at which a pattern of \<open>R\<close> begins.
\<close>

fun occurrences :: "(str \<times> str) list \<Rightarrow> str \<Rightarrow> nat" where
  "occurrences R [] = 0"
| "occurrences R (c # s) =
     (if \<exists>(p, r) \<in> set R. prefix p (c # s) then 1 else 0) + occurrences R s"

subsection \<open>Files\<close>

text \<open>\<open>valid_utf8 bs\<close>: the bytes are the UTF-8 encoding of some string.\<close>

definition valid_utf8 :: "byte list \<Rightarrow> bool" where
  "valid_utf8 bs = (\<exists>text. utf8_encode text = Some bs)"

text \<open>\<open>newline_stable p s\<close>: writing the text read from \<open>s\<close> gives \<open>s\<close> back.\<close>

definition newline_stable :: "platform \<Rightarrow> str \<Rightarrow> bool" where
  "newline_stable p s = (write_newlines p (read_newlines s) = s)"

text \<open>A file with a Windows line ending, on a platform whose line separator is \<^verbatim>\<open>\n\<close>.\<close>

definition crlf_world :: world where
  "crlf_world =
     \<lparr>files = [editor_path \<mapsto> \<lparr>readable = True, writable = True, data = [97, 13, 10]\<rparr>],
      os = Posix, stdout = [], stdout_encodes = (\<lambda>s. True)\<rparr>"

text \<open>A file without carriage return on the same platform.\<close>

definition lf_world :: world where
  "lf_world =
     \<lparr>files = [editor_path \<mapsto> \<lparr>readable = True, writable = True, data = [97, 10]\<rparr>],
      os = Posix, stdout = [], stdout_encodes = (\<lambda>s. True)\<rparr>"

text \<open>A file that can be read but not written, and whose byte is not valid UTF-8.\<close>

definition locked_world :: world where
  "locked_world =
     \<lparr>files = [editor_path \<mapsto> \<lparr>readable = True, writable = False, data = [255]\<rparr>],
      os = Posix, stdout = [], stdout_encodes = (\<lambda>s. True)\<rparr>"

text \<open>No file at all.\<close>

definition empty_world :: world where
  "empty_world = \<lparr>files = Map.empty, os = Posix, stdout = [], stdout_encodes = (\<lambda>s. True)\<rparr>"

section \<open>Lemmas\<close>

subsection \<open>Literal replacement\<close>

lemma str_replace_Nil [simp]: "old \<noteq> [] \<Longrightarrow> str_replace old new [] = []"
  by (simp add: str_replace.simps)

lemma str_replace_match:
  "old \<noteq> [] \<Longrightarrow> str_replace old new (old @ s) = new @ str_replace old new s"
  by (subst str_replace.simps) simp

lemma str_replace_skip:
  "old \<noteq> [] \<Longrightarrow> \<not> prefix old (c # s) \<Longrightarrow> str_replace old new (c # s) = c # str_replace old new s"
  by (subst str_replace.simps) simp

subsection \<open>A pattern without special characters is matched literally\<close>

lemma is_meta_iff:
  "is_meta c \<longleftrightarrow> c \<in> {46, 94, 36, 42, 43, 63, 123, 125, 91, 93, 92, 124, 40, 41}"
  by (auto simp: is_meta_def metachars_def py_str_def)

lemma parse_items_plain:
  "plain p \<Longrightarrow> parse_items p cur alts = Inr (rev ((rev cur @ lits p) # alts))"
proof (induction p arbitrary: cur)
  case Nil
  then show ?case by (simp add: lits_def)
next
  case (Cons c p)
  from Cons.prems have c: "\<not> is_meta c" and p: "plain p"
    by (simp_all add: plain_def)
  from c have "c \<noteq> 124" "c \<noteq> 42" "c \<noteq> 43" "c \<noteq> 63" "c \<noteq> 92" "c \<noteq> 46"
    by (auto simp: is_meta_iff)
  with c Cons.IH [OF p, of "(Lit c, One) # cur"] show ?case
    by (simp add: lits_def)
qed

lemma re_compile_plain: "plain p \<Longrightarrow> re_compile p = Inr [lits p]"
  by (simp add: re_compile_def parse_items_plain)

lemma match_seq_lits:
  "match_seq (lits p) s = (if prefix p s then [drop (length p) s] else [])"
proof (induction p arbitrary: s)
  case Nil
  then show ?case by (simp add: lits_def)
next
  case (Cons c p)
  show ?case
  proof (cases s)
    case Nil
    then show ?thesis by (simp add: lits_def)
  next
    case (Cons d t)
    with Cons.IH [of t] show ?thesis
      by (auto simp: lits_def)
  qed
qed

lemma match_alts_lits:
  "match_alts [lits p] s = (if prefix p s then [drop (length p) s] else [])"
  by (simp add: match_alts_def match_seq_lits)

lemma sub_loop_lits:
  "p \<noteq> [] \<Longrightarrow> sub_loop [lits p] r adv s = str_replace p r s"
proof (induction s arbitrary: adv rule: length_induct)
  case (1 s)
  show ?case
  proof (cases "prefix p s")
    case True
    then obtain t where t: "s = p @ t" by (auto simp: prefix_def)
    with 1 have "length t < length s" by simp
    with 1 have ih: "sub_loop [lits p] r False t = str_replace p r t" by blast
    from 1 t have "t \<noteq> s" by simp
    with True t ih 1(2) show ?thesis
      by (subst sub_loop.simps) (simp add: match_alts_lits str_replace_match)
  next
    case False
    show ?thesis
    proof (cases s)
      case Nil
      with False 1(2) show ?thesis
        by (subst sub_loop.simps) (simp add: match_alts_lits)
    next
      case (Cons c t)
      with 1 have ih: "sub_loop [lits p] r False t = str_replace p r t" by simp
      from False Cons ih 1(2) show ?thesis
        by (subst sub_loop.simps) (simp add: match_alts_lits str_replace_skip)
    qed
  qed
qed

lemma sub_loop_empty:
  "sub_loop [[]] r False s = r @ concat (map (\<lambda>c. c # r) s)"
  "sub_loop [[]] r True s = (case s of [] \<Rightarrow> [] | c # cs \<Rightarrow> c # r @ concat (map (\<lambda>c. c # r) cs))"
proof (induction s)
  case Nil
  { case 1 show ?case 
      by (subst sub_loop.simps, simp add: match_alts_def, subst sub_loop.simps, simp add: match_alts_def) 
  next
    case 2 show ?case by (subst sub_loop.simps, simp add: match_alts_def) 
  }
next
  case (Cons c s)
  { case 1 
    show ?case using Cons
      by (subst sub_loop.simps, simp add: match_alts_def, subst sub_loop.simps, simp add: match_alts_def) 
  next
    case 2 show ?case using Cons by (subst sub_loop.simps, simp add: match_alts_def) 
  }
qed

lemma re_sub_plain:
  assumes "plain p" and "92 \<notin> set r"
  shows "re_sub p r s = Inr (str_replace p r s)"
proof (cases "p = []")
  case True
  then show ?thesis using assms
    by (simp add: re_sub_def re_compile_plain expand_template_def lits_def sub_loop_empty str_replace.simps)
next
  case False
  then show ?thesis using assms
    by (simp add: re_sub_def re_compile_plain expand_template_def sub_loop_lits)
qed

subsection \<open>The substitution loop on plain rule lists\<close>

lemma apply_replacements_plain:
  "rules_plain R \<Longrightarrow> apply_replacements R s = Inr (replace_all R s)"
proof (induction R arbitrary: s)
  case Nil
  then show ?case by simp
next
  case (Cons a R)
  obtain p r where a: "a = (p, r)" by (cases a)
  from Cons.prems a have "plain p" "92 \<notin> set r" "rules_plain R"
    by (simp_all add: rules_plain_def)
  with Cons.IH a show ?case
    by (simp add: re_sub_plain)
qed

lemma replace_all_append:
  "replace_all (R @ R') s = replace_all R' (replace_all R s)"
  by (induction R arbitrary: s) auto

lemma editor_rules_plain: "rules_plain editor_replacements"
  by (simp add: rules_plain_def plain_def editor_replacements_def is_meta_iff py_str_def)

lemma viewer_rules_plain: "rules_plain viewer_replacements"
  by (simp add: rules_plain_def plain_def viewer_replacements_def is_meta_iff py_str_def)

subsection \<open>Occurrences and overlaps\<close>

lemma comparable_iff: "comparable x y \<longleftrightarrow> prefix x y \<or> prefix y x"
  by (induction x y rule: comparable.induct) auto

lemma comparable_sym: "comparable x y \<Longrightarrow> comparable y x"
  by (auto simp: comparable_iff)

lemma prefix_append_comparable: "prefix q (a @ t) \<Longrightarrow> comparable q a"
  by (auto simp: comparable_iff prefix_append)

lemma can_start_in_iff:
  "can_start_in q a \<longleftrightarrow> (\<exists>k < length a. comparable q (drop k a))"
proof (induction a)
  case Nil
  then show ?case by simp
next
  case (Cons c a)
  show ?case
  proof
    assume "can_start_in q (c # a)"
    then consider "comparable q (c # a)" | "can_start_in q a" by auto
    then show "\<exists>k < length (c # a). comparable q (drop k (c # a))"
    proof cases
      case 1
      then have "comparable q (drop 0 (c # a))" by simp
      then show ?thesis by blast
    next
      case 2
      with Cons.IH obtain k where "k < length a" "comparable q (drop k a)" by auto
      then have "Suc k < length (c # a)" "comparable q (drop (Suc k) (c # a))" by simp_all
      then show ?thesis by blast
    qed
  next
    assume "\<exists>k < length (c # a). comparable q (drop k (c # a))"
    then obtain k where k: "k < length (c # a)" "comparable q (drop k (c # a))" by auto
    show "can_start_in q (c # a)"
    proof (cases k)
      case 0
      with k show ?thesis by simp
    next
      case (Suc j)
      with k have "j < length a" "comparable q (drop j a)" by simp_all
      with Cons.IH show ?thesis by auto
    qed
  qed
qed

lemma sublist_append_skip:
  "sublist q (a @ t) \<Longrightarrow> \<not> can_start_in q a \<Longrightarrow> sublist q t"
proof (induction a)
  case Nil
  then show ?case by simp
next
  case (Cons c a)
  from Cons.prems(2) have nc: "\<not> comparable q (c # a)" and na: "\<not> can_start_in q a"
    by simp_all
  from Cons.prems(1) have "prefix q ((c # a) @ t) \<or> sublist q (a @ t)"
    by (simp add: sublist_Cons_right)
  with nc have "sublist q (a @ t)"
    by (blast dest: prefix_append_comparable)
  with na Cons.IH show ?case by blast
qed

lemma suffix_nonempty_starts:
  assumes "suffix w q" and "w \<noteq> []" and "comparable r w"
  shows "can_start_in r q"
proof -
  from assms(1) obtain u where q: "q = u @ w" by (auto simp: suffix_def)
  with assms(2) have "length u < length q" by simp
  moreover from q have "drop (length u) q = w" by simp
  ultimately show ?thesis using assms(3)
    by (auto simp: can_start_in_iff)
qed

text \<open>
  A prefix of the result that is a suffix of \<open>q\<close> was already there, when the replacement
  cannot begin inside \<open>q\<close>.
\<close>

lemma prefix_str_replace:
  assumes "old \<noteq> []" and "\<not> can_start_in new q"
  shows "suffix w q \<Longrightarrow> prefix w (str_replace old new s) \<Longrightarrow> prefix w s"
proof (induction s arbitrary: w rule: length_induct)
  case (1 s)
  show ?case
  proof (cases "w = []")
    case True
    then show ?thesis by simp
  next
    case False
    show ?thesis
    proof (cases "prefix old s")
      case True
      then obtain t where "s = old @ t" by (auto simp: prefix_def)
      with assms(1) 1(3) have "prefix w (new @ str_replace old new t)"
        by (simp add: str_replace_match)
      then have "comparable new w"
        by (blast dest: prefix_append_comparable comparable_sym)
      with 1(2) False assms(2) show ?thesis
        by (blast dest: suffix_nonempty_starts)
    next
      case np: False
      show ?thesis
      proof (cases s)
        case Nil
        with assms(1) 1(3) show ?thesis by simp
      next
        case (Cons c t)
        with np assms(1) 1(3) have pw: "prefix w (c # str_replace old new t)"
          by (simp add: str_replace_skip)
        with False obtain w' where w: "w = c # w'" and pw': "prefix w' (str_replace old new t)"
          by (cases w) auto
        from w 1(2) have "suffix w' q"
          by (metis suffix_ConsD)
        with 1(1) pw' Cons have "prefix w' t" by simp
        with w Cons show ?thesis by simp
      qed
    qed
  qed
qed

text \<open>
  After a rule has been applied its own pattern is gone, and a pattern that was absent
  before stays absent, when neither the pattern nor the replacement can begin inside the
  other.
\<close>

lemma str_replace_clean:
  assumes "old \<noteq> []" and "\<not> can_start_in new q" and "\<not> can_start_in q new"
  shows "q = old \<or> \<not> sublist q s \<Longrightarrow> \<not> sublist q (str_replace old new s)"
proof (induction s rule: length_induct)
  case (1 s)
  show ?case
  proof (cases "prefix old s")
    case True
    then obtain t where t: "s = old @ t" by (auto simp: prefix_def)
    with assms(1) have "length t < length s" by simp
    moreover from 1(2) t have "q = old \<or> \<not> sublist q t"
      by (metis sublist_append_leftI sublist_order.order.trans)
    ultimately have "\<not> sublist q (str_replace old new t)"
      using 1(1) by blast
    with assms(3) have "\<not> sublist q (new @ str_replace old new t)"
      by (blast dest: sublist_append_skip)
    with t assms(1) show ?thesis
      by (simp add: str_replace_match)
  next
    case np: False
    show ?thesis
    proof (cases s)
      case Nil
      with assms(1) 1(2) show ?thesis by auto
    next
      case (Cons c t)
      from 1(2) Cons have "q = old \<or> \<not> sublist q t"
        by (auto simp: sublist_Cons_right)
      moreover from Cons have "length t < length s" by simp
      ultimately have rec: "\<not> sublist q (str_replace old new t)"
        using 1(1) by blast
      have "\<not> prefix q (str_replace old new s)"
      proof
        assume "prefix q (str_replace old new s)"
        with assms(1,2) have "prefix q s"
          by (blast intro: prefix_str_replace)
        with 1(2) np show False by auto
      qed
      with rec np Cons assms(1) show ?thesis
        by (simp add: str_replace_skip sublist_Cons_right)
    qed
  qed
qed

lemma str_replace_absent:
  "old \<noteq> [] \<Longrightarrow> \<not> sublist old s \<Longrightarrow> str_replace old new s = s"
proof (induction s)
  case Nil
  then show ?case by simp
next
  case (Cons c s)
  then have "\<not> prefix old (c # s)" "\<not> sublist old s"
    by (auto simp: sublist_Cons_right)
  with Cons show ?case
    by (simp add: str_replace_skip)
qed

subsection \<open>Idempotence\<close>

lemma replace_all_clean:
  assumes "\<forall>(p, r) \<in> set R. p \<noteq> [] \<and> (\<forall>q \<in> Q \<union> fst ` set R. separate q r)"
    and "\<forall>q \<in> Q. \<not> sublist q s"
  shows "\<forall>q \<in> Q \<union> fst ` set R. \<not> sublist q (replace_all R s)"
  using assms
proof (induction R arbitrary: Q s)
  case Nil
  then show ?case by simp
next
  case (Cons a R)
  obtain p r where a: "a = (p, r)" by (cases a)
  from Cons.prems(1) a have p: "p \<noteq> []"
    and sep: "\<forall>q \<in> insert p Q \<union> fst ` set R. separate q r"
    and rest: "\<forall>(p', r') \<in> set R. p' \<noteq> [] \<and> (\<forall>q \<in> insert p Q \<union> fst ` set R. separate q r')"
    by auto
  have "\<forall>q \<in> insert p Q. \<not> sublist q (str_replace p r s)"
  proof
    fix q assume q: "q \<in> insert p Q"
    with sep have "\<not> can_start_in r q" "\<not> can_start_in q r"
      by (auto simp: separate_def)
    moreover from q Cons.prems(2) have "q = p \<or> \<not> sublist q s" by auto
    ultimately show "\<not> sublist q (str_replace p r s)"
      using str_replace_clean [OF p, of r q s] by blast
  qed
  with rest have "\<forall>q \<in> insert p Q \<union> fst ` set R. \<not> sublist q (replace_all R (str_replace p r s))"
    by (rule Cons.IH)
  with a show ?case by simp
qed

lemma compatible_absent: "compatible R \<Longrightarrow> absent R (replace_all R s)"
proof -
  assume c: "compatible R"
  then have "\<forall>(p, r) \<in> set R. p \<noteq> [] \<and> (\<forall>q \<in> {} \<union> fst ` set R. separate q r)"
    by (fastforce simp: compatible_def)
  then have "\<forall>q \<in> {} \<union> fst ` set R. \<not> sublist q (replace_all R s)"
    by (rule replace_all_clean) simp
  then show ?thesis
    by (auto simp: absent_def)
qed

lemma absent_replace_all:
  "\<forall>(p, r) \<in> set R. p \<noteq> [] \<Longrightarrow> absent R s \<Longrightarrow> replace_all R s = s"
proof (induction R)
  case Nil
  then show ?case by simp
next
  case (Cons a R)
  obtain p r where a: "a = (p, r)" by (cases a)
  with Cons.prems have "p \<noteq> []" "\<not> sublist p s" "absent R s" "\<forall>(p, r) \<in> set R. p \<noteq> []"
    by (auto simp: absent_def)
  with Cons.IH a show ?case
    by (simp add: str_replace_absent)
qed

lemma compatible_idem:
  assumes "compatible R"
  shows "replace_all R (replace_all R s) = replace_all R s"
proof -
  from assms have "\<forall>(p, r) \<in> set R. p \<noteq> []"
    by (auto simp: compatible_def)
  moreover from assms have "absent R (replace_all R s)"
    by (rule compatible_absent)
  ultimately show ?thesis
    by (rule absent_replace_all)
qed

subsection \<open>Rule lists that insert a prefix\<close>

lemma comparable_prefix_left: "prefix K r \<Longrightarrow> comparable r x \<Longrightarrow> comparable K x"
  by (auto simp: comparable_iff dest: prefix_order.trans prefix_same_cases)

lemma can_start_in_prefix_left: "prefix K r \<Longrightarrow> can_start_in r a \<Longrightarrow> can_start_in K a"
  by (induction a) (auto dest: comparable_prefix_left)

lemma comparable_nth:
  "comparable x y \<Longrightarrow> i < length x \<Longrightarrow> i < length y \<Longrightarrow> x ! i = y ! i"
  by (auto simp: comparable_iff prefix_def nth_append)

lemma can_start_in_front:
  assumes "prefix K r" and "x \<noteq> []" and "\<not> comparable r x" and "\<not> can_start_in K (tl x)"
  shows "\<not> can_start_in r x"
proof (cases x)
  case Nil
  with assms(2) show ?thesis by simp
next
  case (Cons c y)
  with assms(4) have "\<not> can_start_in r y"
    using can_start_in_prefix_left [OF assms(1)] by auto
  with Cons assms(3) show ?thesis by simp
qed

lemma prefixing_parts:
  assumes "prefixing K V R" and "(p, r) \<in> set R"
  shows "p = K @ drop (length K) p" and "r = K @ V @ drop (length K) p"
    and "drop (length K) p \<noteq> []" and "hd (drop (length K) p) \<noteq> hd V"
    and "\<not> can_start_in K (tl p)" and "\<not> can_start_in K (tl r)"
proof -
  from assms have pre: "prefix K p" and r: "r = K @ V @ drop (length K) p"
    and len: "length K < length p" and ne: "p ! length K \<noteq> hd V"
    and a: "\<not> can_start_in K (tl p)" and b: "\<not> can_start_in K (tl r)"
    by (auto simp: prefixing_def)
  from pre show "p = K @ drop (length K) p"
    by (auto simp: prefix_def)
  from len show "drop (length K) p \<noteq> []" by simp
  from len ne show "hd (drop (length K) p) \<noteq> hd V"
    by (simp add: hd_drop_conv_nth)
  from r a b show "r = K @ V @ drop (length K) p"
    "\<not> can_start_in K (tl p)" "\<not> can_start_in K (tl r)" by simp_all
qed

lemma prefixing_not_comparable:
  assumes "m \<noteq> []" and "V \<noteq> []" and "hd m \<noteq> hd V"
  shows "\<not> comparable (K @ m) (K @ V @ y)"
proof
  assume "comparable (K @ m) (K @ V @ y)"
  moreover from assms have "length K < length (K @ m)" "length K < length (K @ V @ y)"
    by simp_all
  ultimately have "(K @ m) ! length K = (K @ V @ y) ! length K"
    by (rule comparable_nth)
  with assms show False
    by (simp add: nth_append hd_conv_nth)
qed

lemma prefixing_separate:
  assumes R: "prefixing K V R" and q: "(q, r') \<in> set R" and p: "(p, r) \<in> set R"
  shows "separate q r"
proof -
  let ?n = "drop (length K) q" and ?m = "drop (length K) p"
  from R have V: "V \<noteq> []" by (simp add: prefixing_def)
  note Q = prefixing_parts [OF R q] and P = prefixing_parts [OF R p]
  have nc: "\<not> comparable (K @ ?n) (K @ V @ ?m)"
    using Q(3) V Q(4) by (rule prefixing_not_comparable)
  have "\<not> can_start_in r q"
  proof (rule can_start_in_front [of K])
    show "prefix K r" using P(2) by (metis prefixI)
    show "q \<noteq> []" using Q(1,3) by auto
    show "\<not> comparable r q" using nc Q(1) P(2) by (metis comparable_sym)
    show "\<not> can_start_in K (tl q)" by (rule Q(5))
  qed
  moreover have "\<not> can_start_in q r"
  proof (rule can_start_in_front [of K])
    show "prefix K q" using Q(1) by (metis prefixI)
    show "r \<noteq> []" using P(2) V by auto
    show "\<not> comparable q r" using nc Q(1) P(2) by metis
    show "\<not> can_start_in K (tl r)" by (rule P(6))
  qed
  ultimately show ?thesis by (simp add: separate_def)
qed

lemma prefixing_compatible: "prefixing K V R \<Longrightarrow> compatible R"
  unfolding compatible_def
proof (intro ballI, clarify, intro conjI ballI)
  fix q r' assume R: "prefixing K V R" and q: "(q, r') \<in> set R"
  from prefixing_parts(1,3) [OF R q] show "q \<noteq> []" by auto
  fix x assume x: "x \<in> set R"
  obtain p r where xp: "x = (p, r)" by (cases x)
  with x have "(p, r) \<in> set R" by simp
  with prefixing_separate [OF R q] xp show "case x of (p, r) \<Rightarrow> separate q r" by simp
qed

lemma editor_prefixing: "prefixing class_attr (py_str ''editor-'') editor_replacements"
  by (simp add: prefixing_def class_attr_def editor_replacements_def py_str_def)

lemma viewer_prefixing: "prefixing class_attr (py_str ''viewer-'') viewer_replacements"
  by (simp add: prefixing_def class_attr_def viewer_replacements_def py_str_def)

lemma plain_compatible_idem:
  assumes "rules_plain R" and "compatible R"
  shows "apply_replacements R s = Inr (replace_all R s)"
    and "absent R (replace_all R s)"
    and "apply_replacements R (replace_all R s) = Inr (replace_all R s)"
  using assms
  by (simp_all add: apply_replacements_plain compatible_absent compatible_idem)

subsection \<open>Replacement around a fixed piece of text\<close>

lemma straddles_append: "straddles p x \<Longrightarrow> straddles p (a @ x)"
  by (induction a) auto

lemma str_replace_split_right:
  assumes "old \<noteq> []"
  shows "\<not> straddles old x \<Longrightarrow>
    str_replace old new (x @ b) = str_replace old new x @ str_replace old new b"
proof (induction x rule: length_induct)
  case (1 x)
  show ?case
  proof (cases x)
    case Nil
    with assms show ?thesis by simp
  next
    case (Cons c y)
    show ?thesis
    proof (cases "prefix old (x @ b)")
      case True
      have "prefix old x"
      proof (rule ccontr)
        assume n: "\<not> prefix old x"
        with True obtain us where "old = x @ us"
          by (auto simp: prefix_append)
        with n have "strict_prefix x old"
          by (auto simp: strict_prefix_def)
        with Cons 1(2) show False by simp
      qed
      then obtain z where z: "x = old @ z" by (auto simp: prefix_def)
      with assms have "length z < length x" by simp
      moreover from 1(2) z have "\<not> straddles old z"
        by (auto dest: straddles_append)
      ultimately have "str_replace old new (z @ b) = str_replace old new z @ str_replace old new b"
        using 1(1) by blast
      with z assms show ?thesis
        by (simp add: str_replace_match)
    next
      case False
      then have np: "\<not> prefix old (c # y @ b)" "\<not> prefix old (c # y)"
        using Cons prefix_prefix [of old "c # y" b] by auto
      from 1(2) Cons have "\<not> straddles old y" by simp
      moreover from Cons have "length y < length x" by simp
      ultimately have "str_replace old new (y @ b) = str_replace old new y @ str_replace old new b"
        using 1(1) by blast
      with np Cons assms show ?thesis
        by (simp add: str_replace_skip)
    qed
  qed
qed

lemma str_replace_split_left:
  assumes "old \<noteq> []" and "\<not> can_start_in x (tl old)"
  shows "str_replace old new (a @ x @ b) = str_replace old new a @ str_replace old new (x @ b)"
proof (induction a rule: length_induct)
  case (1 a)
  show ?case
  proof (cases a)
    case Nil
    with assms(1) show ?thesis by simp
  next
    case (Cons c y)
    show ?thesis
    proof (cases "prefix old (a @ x @ b)")
      case True
      have "prefix old a"
      proof (rule ccontr)
        assume n: "\<not> prefix old a"
        with True obtain us where us: "old = a @ us" "prefix us (x @ b)"
          by (auto simp: prefix_append)
        from us Cons have "suffix us (tl old)"
          by (simp add: suffix_def)
        moreover from us n have "us \<noteq> []" by auto
        moreover from us(2) have "comparable x us"
          by (blast dest: prefix_append_comparable comparable_sym)
        ultimately have "can_start_in x (tl old)"
          by (rule suffix_nonempty_starts)
        with assms(2) show False by simp
      qed
      then obtain z where z: "a = old @ z" by (auto simp: prefix_def)
      with assms(1) have "length z < length a" by simp
      with 1 have "str_replace old new (z @ x @ b) = str_replace old new z @ str_replace old new (x @ b)"
        by blast
      with z assms(1) show ?thesis
        by (simp add: str_replace_match)
    next
      case False
      then have np: "\<not> prefix old (c # y @ x @ b)" "\<not> prefix old (c # y)"
        using Cons prefix_prefix [of old "c # y" "x @ b"] by auto
      from Cons have "length y < length a" by simp
      with 1 have "str_replace old new (y @ x @ b) = str_replace old new y @ str_replace old new (x @ b)"
        by blast
      with np Cons assms(1) show ?thesis
        by (simp add: str_replace_skip)
    qed
  qed
qed

lemma replace_all_isolated:
  "isolated R x \<Longrightarrow>
     replace_all R (a @ x @ b) = replace_all R a @ replace_all R x @ replace_all R b"
proof (induction R arbitrary: a x b)
  case Nil
  then show ?case by simp
next
  case (Cons rule R)
  obtain p r where rule: "rule = (p, r)" by (cases rule)
  with Cons.prems have p: "p \<noteq> []" and l: "\<not> can_start_in x (tl p)"
    and s: "\<not> straddles p x" and i: "isolated R (str_replace p r x)"
    by simp_all
  have "str_replace p r (a @ x @ b) = str_replace p r a @ str_replace p r x @ str_replace p r b"
    using str_replace_split_left [OF p l] str_replace_split_right [OF p s] by simp
  with Cons.IH [OF i] rule show ?case by simp
qed

lemma plain_isolated:
  assumes "rules_plain R" and "isolated R x"
  shows "apply_replacements R (a @ x @ b)
           = Inr (replace_all R a @ replace_all R x @ replace_all R b)
         \<and> apply_replacements R a = Inr (replace_all R a)
         \<and> apply_replacements R b = Inr (replace_all R b)"
  using assms by (simp add: apply_replacements_plain replace_all_isolated)

lemma viewer_badge_fixed:
  \<open>isolated viewer_replacements (py_str ''className="classroom-badge-fixed"'')\<close>
  \<open>replace_all viewer_replacements (py_str ''className="classroom-badge-fixed"'')
     = py_str ''className="viewer-classroom-badge-fixed"''\<close>
  by (simp_all add: viewer_replacements_def py_str_def str_replace.simps)

lemma viewer_subject_code:
  \<open>isolated viewer_replacements (py_str ''className="subject-code"'')\<close>
  \<open>replace_all viewer_replacements (py_str ''className="subject-code"'')
     = py_str ''className="viewer-subject-code"''\<close>
  by (simp_all add: viewer_replacements_def py_str_def str_replace.simps)

lemma editor_subject_code:
  \<open>isolated editor_replacements (py_str ''className="subject-code"'')\<close>
  \<open>replace_all editor_replacements (py_str ''className="subject-code"'')
     = py_str ''className="editor-subject-code"''\<close>
  by (simp_all add: editor_replacements_def py_str_def str_replace.simps)

lemma editor_timetable_grid:
  \<open>isolated editor_replacements (py_str ''className="timetable-grid"'')\<close>
  \<open>replace_all editor_replacements (py_str ''className="timetable-grid"'')
     = py_str ''className="editor-timetable-grid"''\<close>
  by (simp_all add: editor_replacements_def py_str_def str_replace.simps)

subsection \<open>Global substitution, as the specification words it\<close>

lemma str_replace_before_leftmost:
  assumes "p \<noteq> []"
  shows "\<not> sublist p (u @ butlast p) \<Longrightarrow>
    str_replace p r (u @ p @ v) = u @ r @ str_replace p r v"
proof (induction u)
  case Nil
  with assms show ?case by (simp add: str_replace_match)
next
  case (Cons c u)
  from Cons.prems have np: "\<not> prefix p (c # u @ butlast p)" and ns: "\<not> sublist p (u @ butlast p)"
    by (simp_all add: sublist_Cons_right)
  have "\<not> prefix p (c # u @ p @ v)"
  proof
    assume a: "prefix p (c # u @ p @ v)"
    have "prefix (butlast p) (p @ v)"
      by (simp add: prefixeq_butlast)
    then have "prefix (c # u @ butlast p) (c # u @ p @ v)" by simp
    moreover from assms have "length p \<le> length (c # u @ butlast p)" by simp
    ultimately have "prefix p (c # u @ butlast p)"
      using a by (blast intro: prefix_length_prefix)
    with np show False by simp
  qed
  with assms Cons.IH [OF ns] show ?case
    by (simp add: str_replace_skip)
qed

lemma global_subst_is_str_replace:
  assumes "p \<noteq> []"
  shows "global_subst p r s t \<Longrightarrow> t = str_replace p r s"
proof (induction rule: global_subst.induct)
  case (no_match s)
  with assms show ?case by (simp add: str_replace_absent)
next
  case (leftmost u v t)
  with assms show ?case by (simp add: str_replace_before_leftmost)
qed

lemma global_subst_Cons:
  assumes "global_subst p r s t" and "\<not> prefix p (c # s)"
  shows "global_subst p r (c # s) (c # t)"
  using assms
proof (cases rule: global_subst.cases)
  case no_match
  with assms(2) have "\<not> sublist p (c # s)"
    by (simp add: sublist_Cons_right)
  with no_match show ?thesis
    by (simp add: global_subst.no_match)
next
  case (leftmost u v t')
  have "\<not> prefix p (c # u @ butlast p)"
  proof
    assume "prefix p (c # u @ butlast p)"
    moreover have "prefix (butlast p) (p @ v)"
      by (simp add: prefixeq_butlast)
    then have "prefix (c # u @ butlast p) (c # u @ p @ v)" by simp
    ultimately have "prefix p (c # u @ p @ v)"
      by (rule prefix_order.trans)
    with leftmost assms(2) show False by simp
  qed
  with leftmost have "\<not> sublist p ((c # u) @ butlast p)"
    by (simp add: sublist_Cons_right)
  then have "global_subst p r ((c # u) @ p @ v) ((c # u) @ r @ t')"
    using leftmost(4) by (rule global_subst.leftmost)
  with leftmost show ?thesis by simp
qed

lemma not_sublist_butlast: "p \<noteq> [] \<Longrightarrow> \<not> sublist p (butlast p)"
proof
  assume p: "p \<noteq> []" and "sublist p (butlast p)"
  then have "length p \<le> length (butlast p)"
    by (blast dest: sublist_length_le)
  moreover have "length (butlast p) = length p - 1"
    by (rule length_butlast)
  moreover from p have "0 < length p" by simp
  ultimately show False by arith
qed

lemma str_replace_is_global_subst:
  assumes "p \<noteq> []"
  shows "global_subst p r s (str_replace p r s)"
proof (induction s rule: length_induct)
  case (1 s)
  show ?case
  proof (cases "prefix p s")
    case True
    then obtain v where v: "s = p @ v" by (auto simp: prefix_def)
    with assms have "length v < length s" by simp
    with 1 have "global_subst p r v (str_replace p r v)" by blast
    moreover from assms have "\<not> sublist p ([] @ butlast p)"
      by (simp add: not_sublist_butlast)
    ultimately have "global_subst p r ([] @ p @ v) ([] @ r @ str_replace p r v)"
      by (rule global_subst.leftmost [rotated])
    with v assms show ?thesis
      by (simp add: str_replace_match)
  next
    case False
    show ?thesis
    proof (cases s)
      case Nil
      with assms show ?thesis
        by (simp add: global_subst.no_match)
    next
      case (Cons c y)
      with 1 have "global_subst p r y (str_replace p r y)" by simp
      with False Cons have "global_subst p r (c # y) (c # str_replace p r y)"
        by (simp add: global_subst_Cons)
      with False Cons assms show ?thesis
        by (simp add: str_replace_skip)
    qed
  qed
qed

lemma global_subst_iff:
  "p \<noteq> [] \<Longrightarrow> global_subst p r s t \<longleftrightarrow> t = str_replace p r s"
  using global_subst_is_str_replace str_replace_is_global_subst by blast

lemma in_order_iff:
  "\<forall>(p, r) \<in> set R. p \<noteq> [] \<Longrightarrow> in_order R s t \<longleftrightarrow> t = replace_all R s"
proof (induction R arbitrary: s)
  case Nil
  show ?case
    by (auto intro: in_order.finished elim: in_order.cases)
next
  case (Cons rule R)
  obtain p r where rule: "rule = (p, r)" by (cases rule)
  with Cons.prems have p: "p \<noteq> []" and R: "\<forall>(p, r) \<in> set R. p \<noteq> []"
    by simp_all
  have "in_order ((p, r) # R) s t \<longleftrightarrow> (\<exists>s'. global_subst p r s s' \<and> in_order R s' t)"
    by (auto intro: in_order.next_rule elim: in_order.cases)
  also have "\<dots> \<longleftrightarrow> in_order R (str_replace p r s) t"
    by (simp add: global_subst_iff [OF p])
  also have "\<dots> \<longleftrightarrow> t = replace_all R (str_replace p r s)"
    by (rule Cons.IH [OF R])
  finally show ?case
    using rule by simp
qed

lemma compatible_nonempty: "compatible R \<Longrightarrow> \<forall>(p, r) \<in> set R. p \<noteq> []"
  by (auto simp: compatible_def)

subsection \<open>Counting occurrences\<close>

lemma str_count_Nil [simp]: "old \<noteq> [] \<Longrightarrow> str_count old [] = 0"
  by (simp add: str_count.simps)

lemma str_count_match:
  "old \<noteq> [] \<Longrightarrow> str_count old (old @ s) = Suc (str_count old s)"
  by (subst str_count.simps) simp

lemma str_count_skip:
  "old \<noteq> [] \<Longrightarrow> \<not> prefix old (c # s) \<Longrightarrow> str_count old (c # s) = str_count old s"
  by (subst str_count.simps) simp

lemma length_str_replace:
  assumes "old \<noteq> []"
  shows "length (str_replace old new s) + str_count old s * length old
           = length s + str_count old s * length new"
proof (induction s rule: length_induct)
  case (1 s)
  show ?case
  proof (cases "prefix old s")
    case True
    then obtain t where t: "s = old @ t" by (auto simp: prefix_def)
    with assms have "length t < length s" by simp
    with 1 have "length (str_replace old new t) + str_count old t * length old
           = length t + str_count old t * length new" by blast
    with t assms show ?thesis
      by (simp add: str_replace_match str_count_match)
  next
    case False
    show ?thesis
    proof (cases s)
      case Nil
      with assms show ?thesis by simp
    next
      case (Cons c t)
      with 1 have "length (str_replace old new t) + str_count old t * length old
           = length t + str_count old t * length new" by simp
      with False Cons assms show ?thesis
        by (simp add: str_replace_skip str_count_skip)
    qed
  qed
qed

lemma str_count_pos:
  assumes "old \<noteq> []"
  shows "sublist old s \<Longrightarrow> 0 < str_count old s"
proof (induction s)
  case Nil
  with assms show ?case by simp
next
  case (Cons c s)
  show ?case
  proof (cases "prefix old (c # s)")
    case True
    then obtain t where "c # s = old @ t" by (auto simp: prefix_def)
    with assms show ?thesis
      by (simp add: str_count_match)
  next
    case False
    with Cons assms show ?thesis
      by (simp add: str_count_skip sublist_Cons_right)
  qed
qed

lemma str_replace_changes:
  assumes "old \<noteq> []" and "new \<noteq> old" and "sublist old s"
  shows "str_replace old new s \<noteq> s"
proof
  assume eq: "str_replace old new s = s"
  from assms(1,3) have pos: "0 < str_count old s"
    by (rule str_count_pos)
  from length_str_replace [OF assms(1), of new s] eq
  have "str_count old s * length old = str_count old s * length new" by simp
  with pos have len: "length old = length new" by simp
  have "global_subst old new s (str_replace old new s)"
    using assms(1) by (rule str_replace_is_global_subst)
  then show False
  proof (cases rule: global_subst.cases)
    case no_match
    with assms(3) show ?thesis by simp
  next
    case (leftmost u v t)
    with eq have "u @ new @ t = u @ old @ v" by simp
    with len have "new = old" by simp
    with assms(2) show ?thesis by simp
  qed
qed

subsection \<open>The number of substitutions\<close>

lemma sub_count_lits:
  "p \<noteq> [] \<Longrightarrow> sub_count [lits p] adv s = str_count p s"
proof (induction s arbitrary: adv rule: length_induct)
  case (1 s)
  show ?case
  proof (cases "prefix p s")
    case True
    then obtain t where t: "s = p @ t" by (auto simp: prefix_def)
    with 1 have "length t < length s" by simp
    with 1 have ih: "sub_count [lits p] False t = str_count p t" by blast
    from 1 t have "t \<noteq> s" by simp
    with True t ih 1(2) show ?thesis
      by (subst sub_count.simps) (simp add: match_alts_lits str_count_match)
  next
    case False
    show ?thesis
    proof (cases s)
      case Nil
      with False 1(2) show ?thesis
        by (subst sub_count.simps) (simp add: match_alts_lits)
    next
      case (Cons c t)
      with 1 have ih: "sub_count [lits p] False t = str_count p t" by simp
      from False Cons ih 1(2) show ?thesis
        by (subst sub_count.simps) (simp add: match_alts_lits str_count_skip)
    qed
  qed
qed

lemma total_matches_plain:
  "rules_plain R \<Longrightarrow> \<forall>(p, r) \<in> set R. p \<noteq> [] \<Longrightarrow> total_matches R s = count_all R s"
proof (induction R arbitrary: s)
  case Nil
  then show ?case by simp
next
  case (Cons a R)
  obtain p r where a: "a = (p, r)" by (cases a)
  from Cons.prems a have p: "plain p" "92 \<notin> set r" "p \<noteq> []"
    and R: "rules_plain R" "\<forall>(p, r) \<in> set R. p \<noteq> []"
    by (simp_all add: rules_plain_def)
  from Cons.IH [OF R] a p show ?case
    by (simp add: re_compile_plain re_sub_plain sub_count_lits)
qed

subsection \<open>Insertion at the occurrences of the patterns\<close>

lemma str_replace_skip_prefix:
  assumes "p \<noteq> []"
  shows "\<not> can_start_in p a \<Longrightarrow>
    str_replace p r (a @ t) = a @ str_replace p r t \<and> str_count p (a @ t) = str_count p t"
proof (induction a)
  case Nil
  show ?case by simp
next
  case (Cons c a)
  then have "\<not> comparable p (c # a)" and a: "\<not> can_start_in p a" by simp_all
  then have "\<not> prefix p (c # a @ t)"
    using prefix_append_comparable [of p "c # a" t] by auto
  with assms Cons.IH [OF a] show ?case
    by (simp add: str_replace_skip str_count_skip)
qed

lemma inserted_at_Nil: "inserted_at [] K V 0 s s"
  by (induction s) (auto intro: inserted_at.intros)

lemma inserted_at_length: "inserted_at R K V n s t \<Longrightarrow> length t = length s + n * length V"
  by (induction rule: inserted_at.induct) simp_all

lemma can_start_in_append_left: "can_start_in q x \<Longrightarrow> can_start_in q (a @ x)"
  by (induction a) auto

lemma inserted_at_skip:
  assumes "\<forall>(q, r') \<in> set R. \<not> can_start_in q w" and "inserted_at R K V n (w @ s) t"
  shows "\<exists>t'. t = w @ t' \<and> inserted_at R K V n s t'"
  using assms
proof (induction w arbitrary: n t)
  case Nil
  then show ?case by simp
next
  case (Cons c w)
  from Cons.prems(1) have nw: "\<forall>(q, r') \<in> set R. \<not> can_start_in q w" by auto
  from Cons.prems(2) show ?case
  proof (cases rule: inserted_at.cases)
    case at_end
    then show ?thesis by simp
  next
    case (at_match m r n' s' t')
    then have "prefix (K @ m) ((c # w) @ s)" by (simp add: prefix_def)
    then have "comparable (K @ m) (c # w)"
      by (rule prefix_append_comparable)
    with Cons.prems(1) at_match(4) show ?thesis by fastforce
  next
    case (no_match c' s' t')
    then have "inserted_at R K V n (w @ s) t'" by simp
    with Cons.IH [OF nw] obtain t'' where "t' = w @ t''" "inserted_at R K V n s t''" by blast
    with no_match show ?thesis by simp
  qed
qed

lemma inserted_at_source:
  assumes "\<not> can_start_in (K @ V) w" and "inserted_at R K V n s (w @ t)"
  shows "\<exists>s'. s = w @ s' \<and> inserted_at R K V n s' t"
  using assms
proof (induction w arbitrary: s n)
  case Nil
  then show ?case by simp
next
  case (Cons c w)
  from Cons.prems(1) have nc: "\<not> comparable (K @ V) (c # w)" and nw: "\<not> can_start_in (K @ V) w"
    by simp_all
  from Cons.prems(2) show ?case
  proof (cases rule: inserted_at.cases)
    case at_end
    then show ?thesis by simp
  next
    case (at_match m r n' s' t')
    then have "prefix (K @ V) ((c # w) @ t)" by (simp add: prefix_def)
    then have "comparable (K @ V) (c # w)"
      by (rule prefix_append_comparable)
    with nc show ?thesis by simp
  next
    case (no_match c' s' t')
    then have "inserted_at R K V n s' (w @ t)" by simp
    with Cons.IH [OF nw] obtain s'' where "s' = w @ s''" "inserted_at R K V n s'' t" by blast
    with no_match show ?thesis by simp
  qed
qed

lemma occurrences_skip:
  "\<forall>(q, r') \<in> set R. \<not> can_start_in q w \<Longrightarrow> occurrences R (w @ s) = occurrences R s"
proof (induction w)
  case Nil
  show ?case by simp
next
  case (Cons c w)
  then have "\<forall>(q, r') \<in> set R. \<not> prefix q ((c # w) @ s)"
    using prefix_append_comparable [of _ "c # w" s] by fastforce
  with Cons show ?case by auto
qed

lemma inserted_at_occurrences:
  assumes "K \<noteq> []"
  shows "inserted_at R K V n s t \<Longrightarrow> n = occurrences R s"
proof (induction rule: inserted_at.induct)
  case at_end
  show ?case by simp
next
  case (at_match m r n s t)
  from assms obtain c w where w: "K @ m = c # w" by (cases "K @ m") auto
  with at_match(2) have "occurrences R (w @ s) = occurrences R s"
    by (intro occurrences_skip) simp
  moreover from at_match(1) w have "\<exists>(p, r) \<in> set R. prefix p (c # w @ s)"
    by (metis (mono_tags, lifting) append_Cons case_prodI prefixI)
  moreover from w have "occurrences R (K @ m @ s) = occurrences R (c # w @ s)"
    by (metis append_Cons append_assoc)
  ultimately show ?case using at_match(4) by simp
next
  case (no_match c s n t)
  then show ?case by auto
qed


lemma prefixing_no_start:
  assumes R: "prefixing K V R" and q: "(q, r') \<in> set R" and p: "(p, r) \<in> set R"
  shows "\<not> can_start_in q (tl p)"
proof -
  from prefixing_parts(1) [OF R q] have "prefix K q" by (metis prefixI)
  with prefixing_parts(5) [OF R p] show ?thesis
    using can_start_in_prefix_left by blast
qed

lemma prefixing_inside:
  assumes R: "prefixing K V R" and p: "(p, r) \<in> set R"
  shows "\<forall>(q, r') \<in> set R. \<not> can_start_in q (tl p)"
  using prefixing_no_start [OF R _ p] by auto

lemma prefixing_marker:
  assumes R: "prefixing K V R" and pr: "(p, r) \<in> set R"
  shows "\<not> can_start_in (K @ V) p"
proof -
  note P = prefixing_parts [OF R pr]
  from R have K: "K \<noteq> []" and V: "V \<noteq> []"
    unfolding prefixing_def by blast+
  have nc: "\<not> comparable (K @ drop (length K) p) (K @ V @ [])"
    using P(3) V P(4) by (rule prefixing_not_comparable)
  show ?thesis
  proof (rule can_start_in_front [of K])
    show "prefix K (K @ V)" by simp
    show "p \<noteq> []" using P(1) K by auto
    show "\<not> comparable (K @ V) p" using nc P(1) by (metis append_Nil2 comparable_sym)
    show "\<not> can_start_in K (tl p)" by (rule P(5))
  qed
qed

text \<open>
  One more rule of a prefixing list, applied to a string that already has the insertions
  of the rules before it, adds the insertions at the occurrences of its own pattern.
\<close>

lemma inserted_at_str_replace:
  assumes R: "prefixing K V (R1 @ [(p, r)])"
  shows "inserted_at R1 K V n s t \<Longrightarrow>
    inserted_at (R1 @ [(p, r)]) K V (n + str_count p t) s (str_replace p r t)"
proof (induction t arbitrary: n s rule: length_induct)
  case (1 t)
  let ?R = "R1 @ [(p, r)]"
  define m where "m = drop (length K) p"
  have pr: "(p, r) \<in> set ?R" by simp
  note P = prefixing_parts [OF R pr]
  from P(1,2) have pm: "p = K @ m" and rm: "r = K @ V @ m"
    by (simp_all add: m_def)
  from R have K: "K \<noteq> []"
    unfolding prefixing_def by blast
  from pm K have p: "p \<noteq> []" by simp
  have old: "x \<in> set R1 \<Longrightarrow> x \<in> set ?R" for x by simp
  show ?case
  proof (cases "prefix p t")
    case True
    then obtain t' where t: "t = p @ t'" by (auto simp: prefix_def)
    with 1(2) prefixing_marker [OF R pr]
    obtain s' where s: "s = p @ s'" and i: "inserted_at R1 K V n s' t'"
      using inserted_at_source by blast
    from t p have "length t' < length t" by simp
    with 1(1) i have "inserted_at ?R K V (n + str_count p t') s' (str_replace p r t')"
      by blast
    moreover from pr pm have "(K @ m, r) \<in> set ?R" by simp
    moreover from prefixing_inside [OF R pr] pm
    have "\<forall>(q, r') \<in> set ?R. \<not> can_start_in q (tl (K @ m))" by simp
    ultimately have "inserted_at ?R K V (Suc (n + str_count p t')) (K @ m @ s')
        (K @ V @ m @ str_replace p r t')"
      by (intro at_match)
    moreover have "str_replace p r t = r @ str_replace p r t'"
      unfolding t using p by (rule str_replace_match)
    moreover have "str_count p t = Suc (str_count p t')"
      unfolding t using p by (rule str_count_match)
    ultimately show ?thesis
      using s pm rm by simp
  next
    case False
    from 1(2) show ?thesis
    proof (cases rule: inserted_at.cases)
      case at_end
      with p show ?thesis by (simp add: inserted_at.at_end)
    next
      case (no_match c s' t')
      with 1(1) have ih: "inserted_at ?R K V (n + str_count p t') s' (str_replace p r t')"
        by simp
      have "\<not> prefix p (c # s')"
      proof
        assume "prefix p (c # s')"
        with p obtain p' s'' where p': "p = c # p'" and s'': "s' = p' @ s''"
          by (cases p) (auto simp: prefix_def)
        from prefixing_inside [OF R pr] p' have "\<forall>(q, r') \<in> set R1. \<not> can_start_in q p'"
          by auto
        moreover from no_match(4) s'' have "inserted_at R1 K V n (p' @ s'') t'" by simp
        ultimately obtain t'' where "t' = p' @ t''"
          using inserted_at_skip by blast
        with p' no_match(2) have "prefix p t" by simp
        with False show False by simp
      qed
      with no_match(3) have "\<forall>(q, r') \<in> set ?R. \<not> prefix q (c # s')" by auto
      from this ih have "inserted_at ?R K V (n + str_count p t') (c # s')
          (c # str_replace p r t')"
        by (rule inserted_at.no_match)
      with no_match False p show ?thesis
        by (simp add: str_replace_skip str_count_skip)
    next
      case (at_match m' r'' n' s' t')
      from at_match(4) have in_R: "(K @ m', r'') \<in> set ?R" by simp
      from prefixing_parts(2) [OF R in_R] have r'': "r'' = K @ V @ m'" by simp
      from prefixing_separate [OF R pr in_R] have A: "\<not> can_start_in p r''"
        by (simp add: separate_def)
      from K at_match have "length t' < length t" by auto
      with 1(1) at_match
      have "inserted_at ?R K V (n' + str_count p t') s' (str_replace p r t')"
        by blast
      with in_R prefixing_inside [OF R in_R]
      have "inserted_at ?R K V (Suc (n' + str_count p t')) (K @ m' @ s')
          (K @ V @ m' @ str_replace p r t')"
        by (intro inserted_at.at_match)
      moreover from str_replace_skip_prefix [OF p A, of r t'] r''
      have "str_replace p r (K @ V @ m' @ t') = K @ V @ m' @ str_replace p r t'"
        "str_count p (K @ V @ m' @ t') = str_count p t'"
        by simp_all
      ultimately show ?thesis
        using at_match by simp
    qed
  qed
qed

lemma prefixing_subset: "prefixing K V R \<Longrightarrow> set R' \<subseteq> set R \<Longrightarrow> prefixing K V R'"
  unfolding prefixing_def by (intro conjI ballI) auto

lemma prefixing_inserted_at:
  "prefixing K V (R1 @ R2) \<Longrightarrow> inserted_at R1 K V n s t \<Longrightarrow>
     inserted_at (R1 @ R2) K V (n + count_all R2 t) s (replace_all R2 t)"
proof (induction R2 arbitrary: R1 n t)
  case Nil
  then show ?case by simp
next
  case (Cons a R2)
  obtain p r where a: "a = (p, r)" by (cases a)
  from Cons.prems(1) [unfolded a] have "prefixing K V (R1 @ [(p, r)])"
    by (rule prefixing_subset) auto
  from inserted_at_str_replace [OF this Cons.prems(2)]
  have step: "inserted_at (R1 @ [(p, r)]) K V (n + str_count p t) s (str_replace p r t)" .
  from Cons.prems(1) a have "prefixing K V ((R1 @ [(p, r)]) @ R2)" by simp
  from this step have "inserted_at ((R1 @ [(p, r)]) @ R2) K V
      (n + str_count p t + count_all R2 (str_replace p r t)) s
      (replace_all R2 (str_replace p r t))"
    by (rule Cons.IH)
  with a show ?case by (simp add: add.assoc)
qed

text \<open>The insertions are determined by the input.\<close>

lemma inserted_at_unique:
  assumes K: "K \<noteq> []"
  shows "inserted_at R K V n s t \<Longrightarrow> inserted_at R K V n' s t' \<Longrightarrow> n' = n \<and> t' = t"
proof (induction s arbitrary: n t n' t' rule: length_induct)
  case (1 s)
  have skipped: "n1 = n0 \<and> K @ V @ (a @ x) @ t0 = K @ V @ a @ t1"
    if long: "\<forall>(q, r') \<in> set R. \<not> can_start_in q (tl (K @ a @ x))"
      and d0: "inserted_at R K V n0 s0 t0" and d1: "inserted_at R K V n1 (x @ s0) t1"
      and len: "length s0 < length s"
    for a x n0 n1 s0 t0 t1
  proof -
    from K have "tl (K @ a @ x) = (tl K @ a) @ x" by simp
    with long have "\<forall>(q, r') \<in> set R. \<not> can_start_in q x"
      using can_start_in_append_left [of _ x "tl K @ a"] by fastforce
    with d1 obtain t1' where t1: "t1 = x @ t1'" and d1': "inserted_at R K V n1 s0 t1'"
      using inserted_at_skip by blast
    from 1(1) len d0 d1' have "n1 = n0 \<and> t1' = t0" by blast
    with t1 show ?thesis by simp
  qed
  from 1(2) show ?case
  proof (cases rule: inserted_at.cases)
    case A: at_end
    from 1(3) show ?thesis
    proof (cases rule: inserted_at.cases)
      case at_end
      with A show ?thesis by simp
    next
      case (at_match m r n1 s1 t1)
      with A K show ?thesis by simp
    next
      case (no_match c s1 t1)
      with A show ?thesis by simp
    qed
  next
    case A: (no_match c s0 t0)
    from 1(3) show ?thesis
    proof (cases rule: inserted_at.cases)
      case at_end
      with A show ?thesis by simp
    next
      case (at_match m r n1 s1 t1)
      from at_match(2) have "prefix (K @ m) s" by (simp add: prefix_def)
      with A(1,3) at_match(4) show ?thesis by fastforce
    next
      case (no_match c' s1 t1)
      with A(1) have "s1 = s0" "c' = c" by simp_all
      with no_match A 1(1) show ?thesis by auto
    qed
  next
    case A: (at_match m r n0 s0 t0)
    from 1(3) show ?thesis
    proof (cases rule: inserted_at.cases)
      case at_end
      with A K show ?thesis by simp
    next
      case (no_match c s1 t1)
      from A(2) have "prefix (K @ m) s" by (simp add: prefix_def)
      with no_match(1,3) A(4) show ?thesis by fastforce
    next
      case B: (at_match m' r' n1 s1 t1)
      from A(2) B(2) have "m @ s0 = m' @ s1" by simp
      then consider x where "m = m' @ x" "s1 = x @ s0" | x where "m @ x = m'" "s0 = x @ s1"
        by (auto simp: append_eq_append_conv2)
      then show ?thesis
      proof cases
        case 1
        from A(2) K have "length s0 < length s" by (cases K) auto
        with skipped [of m' x n0 s0 t0 n1 t1] A(5,6) B(6) 1
        have "n1 = n0 \<and> K @ V @ (m' @ x) @ t0 = K @ V @ m' @ t1" by simp
        with A B 1 show ?thesis by simp
      next
        case 2
        from B(2) K have "length s1 < length s" by (cases K) auto
        with skipped [of m x n1 s1 t1 n0 t0] B(5,6) A(6) 2
        have "n0 = n1 \<and> K @ V @ (m @ x) @ t1 = K @ V @ m @ t0" by simp
        with A B 2 show ?thesis by simp
      qed
    qed
  qed
qed

lemma prefixing_run:
  assumes "rules_plain R" and "prefixing K V R"
  shows "apply_replacements R B = Inr (replace_all R B)"
    and "inserted_at R K V (total_matches R B) B (replace_all R B)"
    and "inserted_at R K V n B t \<Longrightarrow> n = total_matches R B \<and> t = replace_all R B"
    and "total_matches R B = occurrences R B"
    and "length (replace_all R B) = length B + total_matches R B * length V"
proof -
  from assms(2) have ne: "\<forall>(p, r) \<in> set R. p \<noteq> []"
    by (intro compatible_nonempty prefixing_compatible)
  from assms(2) have K: "K \<noteq> []"
    unfolding prefixing_def by blast
  from assms(1) show "apply_replacements R B = Inr (replace_all R B)"
    by (rule apply_replacements_plain)
  from prefixing_inserted_at [of K V "[]" R, OF _ inserted_at_Nil, of B] assms(2)
  show i: "inserted_at R K V (total_matches R B) B (replace_all R B)"
    by (simp add: total_matches_plain [OF assms(1) ne])
  from i show "length (replace_all R B) = length B + total_matches R B * length V"
    by (rule inserted_at_length)
  from i show "total_matches R B = occurrences R B"
    by (rule inserted_at_occurrences [OF K])
  show "n = total_matches R B \<and> t = replace_all R B" if "inserted_at R K V n B t"
    using inserted_at_unique [OF K i that] .
qed


lemma prefixing_output:
  assumes "rules_plain R" and "prefixing K V R"
  shows "\<exists>out. apply_replacements R B = Inr out
      \<and> inserted_at R K V (total_matches R B) B out
      \<and> (\<forall>n t. inserted_at R K V n B t \<longrightarrow> n = total_matches R B \<and> t = out)
      \<and> total_matches R B = occurrences R B
      \<and> length out = length B + length V * total_matches R B
      \<and> length B \<le> length out"
proof (intro exI conjI allI impI)
  note r = prefixing_run [OF assms, where B = B]
  show "apply_replacements R B = Inr (replace_all R B)" by (rule r(1))
  show "inserted_at R K V (total_matches R B) B (replace_all R B)" by (rule r(2))
  show "total_matches R B = occurrences R B" by (rule r(4))
  show "length (replace_all R B) = length B + length V * total_matches R B"
    using r(5) by (simp add: mult.commute)
  then show "length B \<le> length (replace_all R B)" by simp
  fix n t assume i: "inserted_at R K V n B t"
  from r(3) [OF i] show "n = total_matches R B" and "t = replace_all R B" by simp_all
qed

subsection \<open>UTF-8\<close>

lemma enc1: "unat b0 < 128 \<Longrightarrow> encode_codepoint (unat b0) = Some [b0]"
  by (simp add: encode_codepoint_def)

lemma base64_digit: "k < 64 \<Longrightarrow> (a * 64 + k) div 64 = a \<and> (a * 64 + k) mod 64 = (k::nat)"
  by simp

lemma enc2:
  assumes "194 \<le> unat b0" "unat b0 \<le> 223" "continuation (unat b1)"
  shows "encode_codepoint ((unat b0 - 192) * 64 + (unat b1 - 128)) = Some [b0, b1]"
proof -
  define k0 k1 where "k0 = unat b0 - 192" and "k1 = unat b1 - 128"
  from assms have k: "unat b0 = 192 + k0" "unat b1 = 128 + k1"
    and r: "2 \<le> k0" "k0 < 32" "k1 < 64"
    unfolding continuation_def k0_def k1_def by arith+
  let ?c = "k0 * 64 + k1"
  from r have "128 \<le> ?c" "?c < 2048" "?c div 64 = k0" "?c mod 64 = k1"
    by simp_all
  then have "encode_codepoint ?c = Some [of_nat (192 + k0), of_nat (128 + k1)]"
    by (simp add: encode_codepoint_def)
  also have "of_nat (192 + k0) = b0"
    unfolding k(1) [symmetric] by simp
  also have "of_nat (128 + k1) = b1"
    unfolding k(2) [symmetric] by simp
  finally show ?thesis
    by (simp add: k0_def k1_def)
qed

lemma enc3:
  assumes "224 \<le> unat b0" "unat b0 \<le> 239"
    and "(if unat b0 = 224 then 160 else 128) \<le> unat b1"
    and "unat b1 \<le> (if unat b0 = 237 then 159 else 191)"
    and "continuation (unat b2)"
  shows "encode_codepoint ((unat b0 - 224) * 4096 + (unat b1 - 128) * 64 + (unat b2 - 128))
           = Some [b0, b1, b2]"
proof -
  define k0 k1 k2 where "k0 = unat b0 - 224" and "k1 = unat b1 - 128" and "k2 = unat b2 - 128"
  from assms have k: "unat b0 = 224 + k0" "unat b1 = 128 + k1" "unat b2 = 128 + k2"
    and r: "k0 < 16" "k1 < 64" "k2 < 64"
    and lo: "k0 = 0 \<longrightarrow> 32 \<le> k1" and hi: "k0 = 13 \<longrightarrow> k1 < 32"
    unfolding continuation_def k0_def k1_def k2_def by (auto split: if_splits)
  let ?c = "k0 * 4096 + k1 * 64 + k2"
  from r lo have a: "2048 \<le> ?c" by (cases "k0 = 0") simp_all
  from r have b: "?c < 65536" by simp
  from r hi have s: "\<not> (55296 \<le> ?c \<and> ?c \<le> 57343)" by (cases "k0 = 13") auto
  have c: "?c = (k0 * 64 + k1) * 64 + k2" by simp
  have d1: "?c div 64 = k0 * 64 + k1" "?c mod 64 = k2"
    unfolding c using base64_digit [OF r(3)] by blast+
  have "?c div 4096 = ?c div (64 * 64)" by simp
  also have "\<dots> = ?c div 64 div 64" by (rule div_mult2_eq)
  finally have d2: "?c div 4096 = k0" "?c div 64 mod 64 = k1"
    unfolding d1 using base64_digit [OF r(2)] by simp_all
  note d = d2 d1(2)
  from a b s have "encode_codepoint ?c =
      Some [of_nat (224 + ?c div 4096), of_nat (128 + ?c div 64 mod 64), of_nat (128 + ?c mod 64)]"
    unfolding encode_codepoint_def by simp
  also have "\<dots> = Some [of_nat (unat b0), of_nat (unat b1), of_nat (unat b2)]"
    unfolding d k by simp
  finally show ?thesis
    by (simp add: k0_def k1_def k2_def)
qed

lemma enc4:
  assumes "240 \<le> unat b0" "unat b0 \<le> 244"
    and "(if unat b0 = 240 then 144 else 128) \<le> unat b1"
    and "unat b1 \<le> (if unat b0 = 244 then 143 else 191)"
    and "continuation (unat b2)" and "continuation (unat b3)"
  shows "encode_codepoint
           ((unat b0 - 240) * 262144 + (unat b1 - 128) * 4096 + (unat b2 - 128) * 64
              + (unat b3 - 128))
           = Some [b0, b1, b2, b3]"
proof -
  define k0 k1 k2 k3 where "k0 = unat b0 - 240" and "k1 = unat b1 - 128"
    and "k2 = unat b2 - 128" and "k3 = unat b3 - 128"
  from assms have k: "unat b0 = 240 + k0" "unat b1 = 128 + k1" "unat b2 = 128 + k2"
      "unat b3 = 128 + k3"
    and r: "k0 < 5" "k1 < 64" "k2 < 64" "k3 < 64"
    and lo: "k0 = 0 \<longrightarrow> 16 \<le> k1" and hi: "k0 = 4 \<longrightarrow> k1 < 16"
    unfolding continuation_def k0_def k1_def k2_def k3_def by (auto split: if_splits)
  let ?c = "k0 * 262144 + k1 * 4096 + k2 * 64 + k3"
  from r lo have a: "65536 \<le> ?c" by (cases "k0 = 0") simp_all
  from r hi have b: "?c < 1114112" by (cases "k0 = 4") simp_all
  define a1 a2 where "a1 = k0 * 64 + k1" and "a2 = a1 * 64 + k2"
  have c: "?c = a2 * 64 + k3" by (simp add: a1_def a2_def)
  have e1: "a1 div 64 = k0" "a1 mod 64 = k1"
    unfolding a1_def using base64_digit [OF r(2)] by blast+
  have e2: "a2 div 64 = a1" "a2 mod 64 = k2"
    unfolding a2_def using base64_digit [OF r(3)] by blast+
  have d1: "?c div 64 = a2" "?c mod 64 = k3"
    unfolding c using base64_digit [OF r(4)] by blast+
  have "?c div 4096 = ?c div (64 * 64)" by simp
  also have "\<dots> = ?c div 64 div 64" by (rule div_mult2_eq)
  also have "\<dots> = a1" by (simp only: d1 e2)
  finally have d2: "?c div 4096 = a1" .
  have "?c div 262144 = ?c div (4096 * 64)" by simp
  also have "\<dots> = ?c div 4096 div 64" by (rule div_mult2_eq)
  also have "\<dots> = k0" by (simp only: d2 e1)
  finally have d3: "?c div 262144 = k0" .
  have d4: "?c div 4096 mod 64 = k1" "?c div 64 mod 64 = k2"
    by (simp_all only: d2 d1 e1 e2)
  note d = d3 d4 d1(2)
  from a b have "encode_codepoint ?c =
      Some [of_nat (240 + ?c div 262144), of_nat (128 + ?c div 4096 mod 64),
            of_nat (128 + ?c div 64 mod 64), of_nat (128 + ?c mod 64)]"
    unfolding encode_codepoint_def by simp
  also have "\<dots> = Some [of_nat (unat b0), of_nat (unat b1), of_nat (unat b2), of_nat (unat b3)]"
    unfolding d k by simp
  finally show ?thesis
    by (simp add: k0_def k1_def k2_def k3_def)
qed

lemma utf8_roundtrip: "utf8_decode bs = Some cs \<Longrightarrow> utf8_encode cs = Some bs"
proof (induction bs arbitrary: cs rule: length_induct)
  case (1 bs)
  show ?case
  proof (cases bs)
    case Nil
    with 1(2) show ?thesis by simp
  next
    case (Cons b0 tl0)
    consider (one) "unat b0 < 128"
      | (two) "194 \<le> unat b0" "unat b0 \<le> 223"
      | (three) "224 \<le> unat b0" "unat b0 \<le> 239"
      | (four) "240 \<le> unat b0" "unat b0 \<le> 244"
      | (bad) "128 \<le> unat b0" "unat b0 < 194 \<or> 244 < unat b0"
      by linarith
    then show ?thesis
    proof cases
      case one
      with 1(2) Cons obtain ds where ds: "utf8_decode tl0 = Some ds" "cs = unat b0 # ds"
        by (auto simp: Let_def)
      with 1(1) Cons have "utf8_encode ds = Some tl0" by simp
      with ds one Cons show ?thesis by (simp add: enc1)
    next
      case two
      with 1(2) Cons obtain b1 rest ds where bs: "tl0 = b1 # rest"
        and c: "continuation (unat b1)"
        and ds: "utf8_decode rest = Some ds"
          "cs = ((unat b0 - 192) * 64 + (unat b1 - 128)) # ds"
        by (auto simp: Let_def split: list.splits if_splits)
      with 1(1) Cons have "utf8_encode ds = Some rest" by simp
      with ds bs two c Cons show ?thesis by (simp add: enc2)
    next
      case three
      with 1(2) Cons obtain b1 b2 rest ds where bs: "tl0 = b1 # b2 # rest"
        and c: "(if unat b0 = 224 then 160 else 128) \<le> unat b1"
          "unat b1 \<le> (if unat b0 = 237 then 159 else 191)" "continuation (unat b2)"
        and ds: "utf8_decode rest = Some ds"
          "cs = ((unat b0 - 224) * 4096 + (unat b1 - 128) * 64 + (unat b2 - 128)) # ds"
        by (auto simp: Let_def split: list.splits if_splits)
      with 1(1) Cons have "utf8_encode ds = Some rest" by simp
      with ds bs Cons enc3 [OF three c] show ?thesis by simp
    next
      case four
      with 1(2) Cons obtain b1 b2 b3 rest ds where bs: "tl0 = b1 # b2 # b3 # rest"
        and c: "(if unat b0 = 240 then 144 else 128) \<le> unat b1"
          "unat b1 \<le> (if unat b0 = 244 then 143 else 191)"
          "continuation (unat b2)" "continuation (unat b3)"
        and ds: "utf8_decode rest = Some ds"
          "cs = ((unat b0 - 240) * 262144 + (unat b1 - 128) * 4096 + (unat b2 - 128) * 64
                  + (unat b3 - 128)) # ds"
        by (auto simp: Let_def split: list.splits if_splits)
      with 1(1) Cons have "utf8_encode ds = Some rest" by simp
      with ds bs Cons enc4 [OF four c] show ?thesis by simp
    next
      case bad
      with 1(2) Cons show ?thesis by (auto simp: Let_def)
    qed
  qed
qed

lemma unat_byte: "n < 256 \<Longrightarrow> unat (of_nat n :: byte) = n"
  by (simp add: unat_of_nat)

lemma decode_encoded_codepoint:
  assumes "encode_codepoint c = Some bs"
  shows "utf8_decode (bs @ rest) = map_option ((#) c) (utf8_decode rest)"
proof -
  define d0 d1 d2 d3 where "d0 = c mod 64" and "d1 = c div 64 mod 64"
    and "d2 = c div 4096 mod 64" and "d3 = c div 262144"
  have lt: "d0 < 64" "d1 < 64" "d2 < 64"
    by (simp_all add: d0_def d1_def d2_def)
  have c1: "c = c div 64 * 64 + d0"
    by (simp add: d0_def)
  have "c div 4096 = c div (64 * 64)" by simp
  also have "\<dots> = c div 64 div 64" by (rule div_mult2_eq)
  finally have q2: "c div 4096 = c div 64 div 64" .
  have "c div 262144 = c div (4096 * 64)" by simp
  also have "\<dots> = c div 4096 div 64" by (rule div_mult2_eq)
  finally have q3: "c div 262144 = c div 4096 div 64" .
  have c2: "c div 64 = c div 4096 * 64 + d1"
    unfolding q2 d1_def by simp
  have c3: "c div 4096 = d3 * 64 + d2"
    unfolding d3_def q3 d2_def by simp
  consider (one) "c < 128"
    | (two) "128 \<le> c" "c < 2048"
    | (three) "2048 \<le> c" "c < 65536" "\<not> (55296 \<le> c \<and> c \<le> 57343)"
    | (four) "65536 \<le> c" "c < 1114112"
    | (bad) "55296 \<le> c \<and> c \<le> 57343 \<or> 1114112 \<le> c"
    by linarith
  then show ?thesis
  proof cases
    case one
    with assms have "bs = [of_nat c]" by (simp add: encode_codepoint_def)
    with one show ?thesis by (simp add: unat_byte Let_def)
  next
    case two
    define B0 B1 :: byte where "B0 = of_nat (192 + c div 64)" and "B1 = of_nat (128 + d0)"
    from two assms have bs: "bs = [B0, B1]"
      by (simp add: encode_codepoint_def d0_def B0_def B1_def)
    from two have r: "2 \<le> c div 64" "c div 64 < 32" by simp_all
    from r lt have h: "192 + c div 64 < 256" "128 + d0 < 256" by simp_all
    note u = unat_byte [OF h(1), folded B0_def] unat_byte [OF h(2), folded B1_def]
    have "utf8_decode (bs @ rest) = map_option ((#) (c div 64 * 64 + d0)) (utf8_decode rest)"
      unfolding bs using r lt by (simp add: u Let_def continuation_def)
    with c1 show ?thesis by simp
  next
    case three
    define B0 B1 B2 :: byte where "B0 = of_nat (224 + c div 4096)"
      and "B1 = of_nat (128 + d1)" and "B2 = of_nat (128 + d0)"
    from three assms have bs: "bs = [B0, B1, B2]"
      by (auto simp: encode_codepoint_def d0_def d1_def B0_def B1_def B2_def split: if_splits)
    from three have r: "c div 4096 < 16" by simp
    from three c2 have lo: "c div 4096 = 0 \<longrightarrow> 32 \<le> d1" by auto
    have hi: "c div 4096 = 13 \<longrightarrow> d1 < 32"
    proof
      assume a: "c div 4096 = 13"
      then have "53248 \<le> c" "c < 57344" by arith+
      with three have "c < 55296" by auto
      then have "c div 64 < 864" by simp
      with c2 a show "d1 < 32" by simp
    qed
    from r lt have h: "224 + c div 4096 < 256" "128 + d1 < 256" "128 + d0 < 256" by simp_all
    note u = unat_byte [OF h(1), folded B0_def] unat_byte [OF h(2), folded B1_def]
      unat_byte [OF h(3), folded B2_def]
    have "utf8_decode (bs @ rest)
        = map_option ((#) (c div 4096 * 4096 + d1 * 64 + d0)) (utf8_decode rest)"
      unfolding bs using r lt lo hi by (auto simp: u Let_def continuation_def)
    moreover from c1 c2 have "c = c div 4096 * 4096 + d1 * 64 + d0" by simp
    ultimately show ?thesis by simp
  next
    case four
    define B0 B1 B2 B3 :: byte where "B0 = of_nat (240 + d3)" and "B1 = of_nat (128 + d2)"
      and "B2 = of_nat (128 + d1)" and "B3 = of_nat (128 + d0)"
    from four assms have bs: "bs = [B0, B1, B2, B3]"
      by (auto simp: encode_codepoint_def d0_def d1_def d2_def d3_def B0_def B1_def B2_def B3_def
          split: if_splits)
    from four have r: "d3 < 5" by (simp add: d3_def)
    from four have "16 \<le> c div 4096" "c div 4096 < 272" by simp_all
    with c3 have lo: "d3 = 0 \<longrightarrow> 16 \<le> d2" and hi: "d3 = 4 \<longrightarrow> d2 < 16" by auto
    from r lt have h: "240 + d3 < 256" "128 + d2 < 256" "128 + d1 < 256" "128 + d0 < 256"
      by simp_all
    note u = unat_byte [OF h(1), folded B0_def] unat_byte [OF h(2), folded B1_def]
      unat_byte [OF h(3), folded B2_def] unat_byte [OF h(4), folded B3_def]
    have "utf8_decode (bs @ rest)
        = map_option ((#) (d3 * 262144 + d2 * 4096 + d1 * 64 + d0)) (utf8_decode rest)"
      unfolding bs using r lt lo hi by (auto simp: u Let_def continuation_def)
    moreover from c1 c2 c3 have "c = d3 * 262144 + d2 * 4096 + d1 * 64 + d0" by simp
    ultimately show ?thesis by simp
  next
    case bad
    with assms show ?thesis by (auto simp: encode_codepoint_def)
  qed
qed

lemma utf8_decode_encoded: "utf8_encode cs = Some bs \<Longrightarrow> utf8_decode bs = Some cs"
proof (induction cs arbitrary: bs)
  case Nil
  then show ?case by simp
next
  case (Cons c cs)
  then obtain b1 b2 where e: "encode_codepoint c = Some b1" "utf8_encode cs = Some b2"
    and bs: "bs = b1 @ b2"
    by (auto split: option.splits)
  from Cons.IH [OF e(2)] decode_encoded_codepoint [OF e(1), of b2] bs show ?case
    by simp
qed

subsection \<open>What a run can do\<close>

lemma valid_utf8_iff: "valid_utf8 bs \<longleftrightarrow> utf8_decode bs \<noteq> None"
  unfolding valid_utf8_def
  using utf8_roundtrip utf8_decode_encoded by (metis not_None_eq)

lemma utf8_encode_Some_iff:
  "(\<exists>bs. utf8_encode s = Some bs) \<longleftrightarrow> (\<forall>c \<in> set s. encode_codepoint c \<noteq> None)"
  by (induction s) (auto split: option.splits)

lemma ascii_encodable: "c < 128 \<Longrightarrow> encode_codepoint c \<noteq> None"
  by (simp add: encode_codepoint_def)

lemma set_read_newlines: "set (read_newlines s) \<subseteq> insert 10 (set s)"
  by (induction s rule: read_newlines.induct) auto

lemma set_write_newlines: "set (write_newlines p s) \<subseteq> set s \<union> {10, 13}"
  by (cases p) (auto simp: write_newlines_def split: if_splits)

lemma set_str_replace:
  assumes "old \<noteq> []"
  shows "set (str_replace old new s) \<subseteq> set s \<union> set new"
proof (induction s rule: length_induct)
  case (1 s)
  show ?case
  proof (cases "prefix old s")
    case True
    then obtain t where t: "s = old @ t" by (auto simp: prefix_def)
    with assms have "length t < length s" by simp
    with 1 have "set (str_replace old new t) \<subseteq> set t \<union> set new" by blast
    with t assms show ?thesis
      by (auto simp: str_replace_match)
  next
    case False
    show ?thesis
    proof (cases s)
      case Nil
      with assms show ?thesis by simp
    next
      case (Cons c t)
      with 1 have "set (str_replace old new t) \<subseteq> set t \<union> set new" by simp
      with False Cons assms show ?thesis
        by (auto simp: str_replace_skip)
    qed
  qed
qed

lemma replace_all_encodable:
  "ascii_rules R \<Longrightarrow> \<forall>c \<in> set s. encode_codepoint c \<noteq> None \<Longrightarrow>
     \<forall>c \<in> set (replace_all R s). encode_codepoint c \<noteq> None"
proof (induction R arbitrary: s)
  case Nil
  then show ?case by simp
next
  case (Cons a R)
  obtain p r where a: "a = (p, r)" by (cases a)
  with Cons.prems(1) have p: "p \<noteq> []" and r: "\<forall>c \<in> set r. c < 128" and R: "ascii_rules R"
    by (simp_all add: ascii_rules_def)
  have "\<forall>c \<in> set (str_replace p r s). encode_codepoint c \<noteq> None"
    using set_str_replace [OF p, of r s] Cons.prems(2) r ascii_encodable by blast
  with Cons.IH [OF R] a show ?case by simp
qed

lemma written_text_encodable:
  assumes "ascii_rules R" and "utf8_decode bytes = Some text"
  shows "\<exists>out. utf8_encode (write_newlines p (replace_all R (read_newlines text))) = Some out"
proof -
  from assms(2) have "utf8_encode text = Some bytes" by (rule utf8_roundtrip)
  then have "\<forall>c \<in> set text. encode_codepoint c \<noteq> None"
    using utf8_encode_Some_iff [of "text"] by blast
  then have "\<forall>c \<in> set (read_newlines text). encode_codepoint c \<noteq> None"
    using set_read_newlines [of "text"] ascii_encodable [of 10] by auto
  with assms(1) have "\<forall>c \<in> set (replace_all R (read_newlines text)). encode_codepoint c \<noteq> None"
    by (rule replace_all_encodable)
  then have "\<forall>c \<in> set (write_newlines p (replace_all R (read_newlines text))).
      encode_codepoint c \<noteq> None"
    using set_write_newlines [of p "replace_all R (read_newlines text)"]
      ascii_encodable [of 10] ascii_encodable [of 13] by auto
  then show ?thesis
    using utf8_encode_Some_iff by blast
qed

text \<open>
  The stages of a run for a list of plain rules with ASCII replacements: the exception of
  each stage, in the order of the script, and the world after a run that reaches the
  write.
\<close>

lemma run_script_missing:
  "files w path = None \<Longrightarrow> run_script path R msg w = (Some (Raised FileNotFoundError), w)"
  by (simp add: run_script_def open_read_def)

lemma run_script_unreadable:
  "files w path = Some f \<Longrightarrow> \<not> readable f \<Longrightarrow>
     run_script path R msg w = (Some (Raised PermissionError), w)"
  by (simp add: run_script_def open_read_def)

lemma run_script_undecodable:
  "files w path = Some f \<Longrightarrow> readable f \<Longrightarrow> utf8_decode (data f) = None \<Longrightarrow>
     run_script path R msg w = (Some (Raised UnicodeDecodeError), w)"
  by (simp add: run_script_def open_read_def read_text_def)

lemma run_script_unwritable:
  "rules_plain R \<Longrightarrow> files w path = Some f \<Longrightarrow> readable f \<Longrightarrow>
     utf8_decode (data f) = Some text \<Longrightarrow> \<not> writable f \<Longrightarrow>
     run_script path R msg w = (Some (Raised PermissionError), w)"
  by (simp add: run_script_def open_read_def read_text_def open_write_def
      apply_replacements_plain)

lemma run_script_written:
  assumes "rules_plain R" and "ascii_rules R"
    and "files w path = Some f" and "readable f" and "writable f"
    and "utf8_decode (data f) = Some text"
  shows "\<exists>out. utf8_encode (write_newlines (os w) (replace_all R (read_newlines text))) = Some out
           \<and> run_script path R msg w
               = print (w\<lparr>files := (files w)(path \<mapsto> f\<lparr>data := out\<rparr>)\<rparr>) msg"
proof -
  from written_text_encodable [OF assms(2,6), of "os w"] obtain out
    where out: "utf8_encode (write_newlines (os w) (replace_all R (read_newlines text))) = Some out"
    by blast
  with assms(1,3-6) have "run_script path R msg w
      = print (w\<lparr>files := (files w)(path \<mapsto> f\<lparr>data := out\<rparr>)\<rparr>) msg"
    by (simp add: run_script_def open_read_def read_text_def open_write_def write_text_def
        apply_replacements_plain)
  with out show ?thesis by blast
qed

lemma editor_ascii: "ascii_rules editor_replacements"
  by (simp add: ascii_rules_def editor_replacements_def py_str_def)

lemma viewer_ascii: "ascii_rules viewer_replacements"
  by (simp add: ascii_rules_def viewer_replacements_def py_str_def)

subsection \<open>Runs of the two scripts\<close>

lemma scripts_run:
  assumes "(script, path, R, msg) \<in> scripts"
  shows "script = run_script path R msg" and "rules_plain R" and "ascii_rules R"
    and "\<forall>(p, r) \<in> set R. p \<noteq> []"
proof -
  from assms show "script = run_script path R msg" and "rules_plain R" and a: "ascii_rules R"
    by (auto simp: scripts_def update_editor_classes_def update_viewer_classes_def
        editor_rules_plain viewer_rules_plain editor_ascii viewer_ascii)
  from a show "\<forall>(p, r) \<in> set R. p \<noteq> []"
    by (auto simp: ascii_rules_def)
qed

lemma read_newlines_no_cr: "13 \<notin> set s \<Longrightarrow> read_newlines s = s"
  by (induction s rule: read_newlines.induct) auto

lemma write_newlines_posix: "write_newlines Posix s = s"
  by (induction s) (auto simp: write_newlines_def)

lemma read_newlines_cr: "13 \<notin> set (read_newlines s)"
  by (induction s rule: read_newlines.induct) auto

lemma newline_stable_posix: "newline_stable Posix s \<longleftrightarrow> 13 \<notin> set s"
  unfolding newline_stable_def write_newlines_posix
  using read_newlines_no_cr [of s] read_newlines_cr [of s] by auto

lemma crlf_world_run:
  "update_editor_classes crlf_world
     = print (crlf_world\<lparr>files := (files crlf_world)
         (editor_path \<mapsto> \<lparr>readable = True, writable = True, data = [97, 10]\<rparr>)\<rparr>) editor_message"
proof -
  let ?f = "\<lparr>readable = True, writable = True, data = [97, 13, 10 :: byte]\<rparr>"
  have f: "files crlf_world editor_path = Some ?f"
    by (simp add: crlf_world_def)
  have d: "utf8_decode (data ?f) = Some [97, 13, 10]"
    by (simp add: Let_def)
  have r: "replace_all editor_replacements (read_newlines [97, 13, 10]) = [97, 10]"
    by (simp add: editor_replacements_def py_str_def str_replace.simps)
  have e: "utf8_encode (write_newlines (os crlf_world) [97, 10]) = Some [97, 10]"
    by (simp add: crlf_world_def write_newlines_def encode_codepoint_def)
  from run_script_written [OF editor_rules_plain editor_ascii f _ _ d, of editor_message]
  show ?thesis
    unfolding r e update_editor_classes_def by auto
qed

section \<open>The claims\<close>

text \<open>
  C1: for either script and every input, the loop returns a string \<open>t\<close> exactly when \<open>t\<close>
  is what the rules of the list give when they are applied one at a time in list order,
  each replacing every non-overlapping occurrence of its pattern, leftmost first, in the
  result of the rule before.
\<close>

theorem C1_rules_in_order:
  "(apply_replacements editor_replacements B = Inr t \<longleftrightarrow> in_order editor_replacements B t)
   \<and> (apply_replacements viewer_replacements B = Inr t \<longleftrightarrow> in_order viewer_replacements B t)"
proof -
  have "\<forall>(p, r) \<in> set editor_replacements. p \<noteq> []"
    using editor_prefixing by (intro compatible_nonempty prefixing_compatible)
  moreover have "\<forall>(p, r) \<in> set viewer_replacements. p \<noteq> []"
    using viewer_prefixing by (intro compatible_nonempty prefixing_compatible)
  ultimately show ?thesis
    by (auto simp: in_order_iff apply_replacements_plain editor_rules_plain viewer_rules_plain)
qed

theorem C1_witness:
  \<open>in_order editor_replacements
     (py_str ''<a className="subject-code"><b className="subject-code">'')
     (py_str ''<a className="editor-subject-code"><b className="editor-subject-code">'')\<close>
proof -
  have "replace_all editor_replacements
     (py_str ''<a className=\"subject-code\"><b className=\"subject-code\">'')
     = py_str ''<a className=\"editor-subject-code\"><b className=\"editor-subject-code\">''"
    by (simp add: editor_replacements_def py_str_def str_replace.simps)
  then have "apply_replacements editor_replacements
     (py_str ''<a className=\"subject-code\"><b className=\"subject-code\">'')
     = Inr (py_str ''<a className=\"editor-subject-code\"><b className=\"editor-subject-code\">'')"
    by (simp add: apply_replacements_plain editor_rules_plain)
  then show ?thesis
    using C1_rules_in_order by blast
qed

text \<open>
  C2, as stated: whenever no pattern of the list occurs in a replacement of the list,
  applying the list twice gives what applying it once gives. The rule \<open>ab \<rightarrow> a\<close> on
  \<open>abb\<close> refutes it: the first application makes a new \<open>ab\<close> where the replacement meets
  the text after it, and the second application rewrites it.
\<close>

theorem C2_counterexample:
  "\<not> sublist (py_str ''ab'') (py_str ''a'')
   \<and> apply_replacements [(py_str ''ab'', py_str ''a'')] (py_str ''abb'') = Inr (py_str ''ab'')
   \<and> apply_twice [(py_str ''ab'', py_str ''a'')] (py_str ''abb'') = Inr (py_str ''a'')
   \<and> apply_twice [(py_str ''ab'', py_str ''a'')] (py_str ''abb'')
       \<noteq> apply_replacements [(py_str ''ab'', py_str ''a'')] (py_str ''abb'')"
proof -
  have p: "rules_plain [(py_str ''ab'', py_str ''a'')]"
    by (simp add: rules_plain_def plain_def is_meta_iff py_str_def)
  have a: "apply_replacements [(py_str ''ab'', py_str ''a'')] s
             = Inr (replace_all [(py_str ''ab'', py_str ''a'')] s)" for s
    using p by (rule apply_replacements_plain)
  have b: "replace_all [(py_str ''ab'', py_str ''a'')] (py_str ''abb'') = py_str ''ab''"
    by (simp add: py_str_def str_replace.simps)
  have c: "replace_all [(py_str ''ab'', py_str ''a'')] (py_str ''ab'') = py_str ''a''"
    by (simp add: py_str_def str_replace.simps)
  have d: "\<not> sublist (py_str ''ab'') (py_str ''a'')" "py_str ''a'' \<noteq> py_str ''ab''"
    by (simp_all add: py_str_def sublist_code)
  have e1: "apply_replacements [(py_str ''ab'', py_str ''a'')] (py_str ''abb'') = Inr (py_str ''ab'')"
    by (simp only: a b)
  have e2: "apply_replacements [(py_str ''ab'', py_str ''a'')] (py_str ''ab'') = Inr (py_str ''a'')"
    by (simp only: a c)
  show ?thesis
    using d by (simp add: apply_twice_def e1 e2 del: apply_replacements.simps)
qed

text \<open>
  C2, amended: when the patterns are non-empty and hold no special character, the
  replacements hold no backslash, and no pattern and no replacement of the list can begin
  inside the other (so that none occurs in the other and no end of one is a start of the
  other), then after one application no pattern occurs in the result, and applying the
  list twice gives what applying it once gives.
\<close>

theorem C2_idempotent_when_compatible:
  assumes "rules_plain R" and "compatible R"
  shows "apply_twice R B = apply_replacements R B
         \<and> (\<exists>t. apply_replacements R B = Inr t \<and> absent R t)"
  using plain_compatible_idem [OF assms, of B]
  by (simp add: apply_twice_def)

theorem C2_witness:
  "rules_plain [(py_str ''cat'', py_str ''dog''), (py_str ''run'', py_str ''ran'')]
   \<and> compatible [(py_str ''cat'', py_str ''dog''), (py_str ''run'', py_str ''ran'')]
   \<and> apply_twice [(py_str ''cat'', py_str ''dog''), (py_str ''run'', py_str ''ran'')] (py_str ''cat run'')
       = Inr (py_str ''dog ran'')"
proof -
  let ?R = "[(py_str ''cat'', py_str ''dog''), (py_str ''run'', py_str ''ran'')]"
  have p: "rules_plain ?R"
    by (simp add: rules_plain_def plain_def is_meta_iff py_str_def)
  have c: "compatible ?R"
    by (simp add: compatible_def separate_def py_str_def)
  have "replace_all ?R (py_str ''cat run'') = py_str ''dog ran''"
    by (simp add: py_str_def str_replace.simps)
  then have "apply_replacements ?R (py_str ''cat run'') = Inr (py_str ''dog ran'')"
    using apply_replacements_plain [OF p, of "py_str ''cat run''"] by simp
  with p c C2_idempotent_when_compatible [OF p c, of "py_str ''cat run''"] show ?thesis
    by (simp del: apply_replacements.simps)
qed

text \<open>
  C3: in every input, an occurrence of \<^verbatim>\<open>className="classroom-badge-fixed"\<close> becomes
  \<^verbatim>\<open>className="viewer-classroom-badge-fixed"\<close> under the viewer rule list: the result is
  the result for the text before it, then the rewritten occurrence, then the result for
  the text after it. The pattern without a closing quote matches a class name that only
  begins with \<^verbatim>\<open>classroom-badge\<close>.
\<close>

theorem C3_badge_prefix_is_rewritten:
  \<open>\<exists>u' v'.
     apply_replacements viewer_replacements u = Inr u'
     \<and> apply_replacements viewer_replacements v = Inr v'
     \<and> apply_replacements viewer_replacements
          (u @ py_str ''className="classroom-badge-fixed"'' @ v)
         = Inr (u' @ py_str ''className="viewer-classroom-badge-fixed"'' @ v')\<close>
  using plain_isolated [OF viewer_rules_plain viewer_badge_fixed(1), of u v]
  by (simp add: viewer_badge_fixed(2))

theorem C3_witness:
  \<open>apply_replacements viewer_replacements
      ([60] @ py_str ''className="classroom-badge-fixed"'' @ [62])
    = Inr ([60] @ py_str ''className="viewer-classroom-badge-fixed"'' @ [62])\<close>
proof -
  have "apply_replacements viewer_replacements [c] = Inr [c]" for c
    by (simp add: apply_replacements_plain [OF viewer_rules_plain])
       (simp add: viewer_replacements_def py_str_def str_replace.simps)
  with C3_badge_prefix_is_rewritten [of "[60]" "[62]"] show ?thesis
    by auto
qed

text \<open>
  C4: for the rule list of either script and every input, the result of one application
  holds no pattern of the list, and a second application returns it unchanged.
\<close>

theorem C4_second_run_is_identity:
  "(\<exists>t. apply_replacements editor_replacements B = Inr t
        \<and> absent editor_replacements t
        \<and> apply_replacements editor_replacements t = Inr t
        \<and> apply_twice editor_replacements B = apply_replacements editor_replacements B)
   \<and> (\<exists>t. apply_replacements viewer_replacements B = Inr t
        \<and> absent viewer_replacements t
        \<and> apply_replacements viewer_replacements t = Inr t
        \<and> apply_twice viewer_replacements B = apply_replacements viewer_replacements B)"
proof -
  have e: "compatible editor_replacements"
    using editor_prefixing by (rule prefixing_compatible)
  have v: "compatible viewer_replacements"
    using viewer_prefixing by (rule prefixing_compatible)
  show ?thesis
    using plain_compatible_idem [OF editor_rules_plain e, of B]
      plain_compatible_idem [OF viewer_rules_plain v, of B]
    by (simp add: apply_twice_def)
qed

theorem C4_witness:
  \<open>apply_twice editor_replacements (py_str ''<p className="subject-code">'')
     = Inr (py_str ''<p className="editor-subject-code">'')\<close>
proof -
  have "apply_replacements editor_replacements (py_str ''<p className=\"subject-code\">'')
     = Inr (py_str ''<p className=\"editor-subject-code\">'')"
    by (simp add: apply_replacements_plain editor_rules_plain)
       (simp add: editor_replacements_def py_str_def str_replace.simps)
  then show ?thesis
    using C4_second_run_is_identity [of \<open>py_str ''<p className="subject-code">''\<close>]
    by simp
qed

text \<open>
  C5, as stated: for every rule list in which a replacement contains the pattern of a
  later rule there is an input on which the loop's result differs from the simultaneous
  one. The list \<open>a \<rightarrow> b, b \<rightarrow> b\<close> refutes it: the replacement of the first rule is the
  pattern of the second, and the two results agree on every input.
\<close>

theorem C5_counterexample:
  "sublist (py_str ''b'') (py_str ''b'')
   \<and> (\<forall>B. apply_replacements [(py_str ''a'', py_str ''b''), (py_str ''b'', py_str ''b'')] B
          = Inr (simultaneous [(py_str ''a'', py_str ''b''), (py_str ''b'', py_str ''b'')] B))"
proof -
  let ?R = "[(py_str ''a'', py_str ''b''), (py_str ''b'', py_str ''b'')]"
  have p: "rules_plain ?R"
    by (simp add: rules_plain_def plain_def is_meta_iff py_str_def)
  have a: "str_replace [97] [98] B = map (\<lambda>c. if c = 97 then 98 else c) B" for B :: str
    by (induction B) (simp_all add: str_replace_skip str_replace_match [of "[97]" "[98]", simplified])
  have b: "str_replace [98] [98] B = B" for B :: str
  proof (induction B)
    case Nil
    show ?case by simp
  next
    case (Cons x B)
    then show ?case
      using str_replace_match [of "[98]" "[98]" B]
      by (cases "x = 98") (simp_all add: str_replace_skip)
  qed
  have c: "simultaneous [([97], [98]), ([98], [98])] B = map (\<lambda>c. if c = 97 then 98 else c) B"
    for B :: str
    by (induction B) (simp_all add: simultaneous.simps [of _ "_ # _"] simultaneous.simps [of _ "[]"])
  have "replace_all ?R B = simultaneous ?R B" for B
    by (simp add: py_str_def a b c)
  then show ?thesis
    by (simp add: apply_replacements_plain [OF p] del: replace_all.simps apply_replacements.simps)
qed

text \<open>
  C5, amended: the loop is the sequential composition of the single-rule substitutions.
  For every list of two rules with non-empty patterns without special characters and
  replacements without backslash, where the first replacement contains the second pattern
  and the second rule changes its pattern, the first pattern is an input on which the
  loop's result (the first replacement with the second rule applied to it) differs from
  the simultaneous result (the first replacement).
\<close>

theorem C5_sequential_not_simultaneous:
  assumes "rules_plain [(p1, r1), (p2, r2)]" and "p1 \<noteq> []" and "p2 \<noteq> []"
    and "sublist p2 r1" and "r2 \<noteq> p2"
  shows "(\<forall>B. apply_replacements [(p1, r1), (p2, r2)] B
            = Inr (str_replace p2 r2 (str_replace p1 r1 B)))
         \<and> apply_replacements [(p1, r1), (p2, r2)] p1 = Inr (str_replace p2 r2 r1)
         \<and> simultaneous [(p1, r1), (p2, r2)] p1 = r1
         \<and> str_replace p2 r2 r1 \<noteq> r1"
proof -
  have seq: "apply_replacements [(p1, r1), (p2, r2)] B
            = Inr (str_replace p2 r2 (str_replace p1 r1 B))" for B
    using apply_replacements_plain [OF assms(1), of B] by simp
  have one: "str_replace p1 r1 p1 = r1"
    using str_replace_match [OF assms(2), of r1 "[]"] assms(2) by simp
  from assms(2) obtain c cs where p1: "p1 = c # cs" by (cases p1) auto
  have sim: "simultaneous [(p1, r1), (p2, r2)] p1 = r1"
    by (subst simultaneous.simps) (simp add: p1 simultaneous.simps [of _ "[]"])
  have "str_replace p2 r2 r1 \<noteq> r1"
    using assms(3,5,4) by (rule str_replace_changes)
  with seq one sim show ?thesis
    by (simp del: apply_replacements.simps)
qed

theorem C5_witness:
  "rules_plain [(py_str ''a'', py_str ''b''), (py_str ''b'', py_str ''c'')]
   \<and> sublist (py_str ''b'') (py_str ''b'')
   \<and> apply_replacements [(py_str ''a'', py_str ''b''), (py_str ''b'', py_str ''c'')] (py_str ''a'')
       = Inr (py_str ''c'')
   \<and> simultaneous [(py_str ''a'', py_str ''b''), (py_str ''b'', py_str ''c'')] (py_str ''a'')
       = py_str ''b''"
proof -
  have p: "rules_plain [(py_str ''a'', py_str ''b''), (py_str ''b'', py_str ''c'')]"
    by (simp add: rules_plain_def plain_def is_meta_iff py_str_def)
  have n: "py_str ''a'' \<noteq> []" "py_str ''b'' \<noteq> []" "sublist (py_str ''b'') (py_str ''b'')"
    "py_str ''c'' \<noteq> py_str ''b''"
    by (simp_all add: py_str_def)
  have e: "str_replace (py_str ''b'') (py_str ''c'') (py_str ''b'') = py_str ''c''"
    by (simp add: py_str_def str_replace.simps)
  note t = C5_sequential_not_simultaneous [OF p n]
  from t have s1: "apply_replacements [(py_str ''a'', py_str ''b''), (py_str ''b'', py_str ''c'')]
      (py_str ''a'') = Inr (str_replace (py_str ''b'') (py_str ''c'') (py_str ''b''))"
    by blast
  from t have s2: "simultaneous [(py_str ''a'', py_str ''b''), (py_str ''b'', py_str ''c'')]
      (py_str ''a'') = py_str ''b''"
    by blast
  from p n(3) s1 s2 e show ?thesis
    by (simp del: apply_replacements.simps)
qed

text \<open>
  C6: in every input, an occurrence of \<^verbatim>\<open>className="timetable-grid"\<close> becomes
  \<^verbatim>\<open>className="editor-timetable-grid"\<close> under the editor rule list, and an occurrence of
  \<^verbatim>\<open>className="subject-code"\<close> becomes \<^verbatim>\<open>className="viewer-subject-code"\<close> under the
  viewer rule list and \<^verbatim>\<open>className="editor-subject-code"\<close> under the editor rule list;
  the text before and the text after are rewritten as they are on their own.
\<close>

theorem C6_scenarios:
  \<open>\<exists>ue ve uv vv.
     apply_replacements editor_replacements u = Inr ue
     \<and> apply_replacements editor_replacements v = Inr ve
     \<and> apply_replacements viewer_replacements u = Inr uv
     \<and> apply_replacements viewer_replacements v = Inr vv
     \<and> apply_replacements editor_replacements (u @ py_str ''className="timetable-grid"'' @ v)
         = Inr (ue @ py_str ''className="editor-timetable-grid"'' @ ve)
     \<and> apply_replacements viewer_replacements (u @ py_str ''className="subject-code"'' @ v)
         = Inr (uv @ py_str ''className="viewer-subject-code"'' @ vv)
     \<and> apply_replacements editor_replacements (u @ py_str ''className="subject-code"'' @ v)
         = Inr (ue @ py_str ''className="editor-subject-code"'' @ ve)\<close>
  using plain_isolated [OF editor_rules_plain editor_timetable_grid(1), of u v]
    plain_isolated [OF viewer_rules_plain viewer_subject_code(1), of u v]
    plain_isolated [OF editor_rules_plain editor_subject_code(1), of u v]
  by (simp add: editor_timetable_grid(2) viewer_subject_code(2) editor_subject_code(2))

theorem C6_witness:
  \<open>apply_replacements editor_replacements ([60] @ py_str ''className="timetable-grid"'' @ [62])
     = Inr ([60] @ py_str ''className="editor-timetable-grid"'' @ [62])
   \<and> apply_replacements viewer_replacements ([60] @ py_str ''className="subject-code"'' @ [62])
     = Inr ([60] @ py_str ''className="viewer-subject-code"'' @ [62])
   \<and> apply_replacements editor_replacements ([60] @ py_str ''className="subject-code"'' @ [62])
     = Inr ([60] @ py_str ''className="editor-subject-code"'' @ [62])\<close>
proof -
  have "apply_replacements viewer_replacements [c] = Inr [c]" for c
    by (simp add: apply_replacements_plain [OF viewer_rules_plain])
       (simp add: viewer_replacements_def py_str_def str_replace.simps)
  moreover have "apply_replacements editor_replacements [c] = Inr [c]" for c
    by (simp add: apply_replacements_plain [OF editor_rules_plain])
       (simp add: editor_replacements_def py_str_def str_replace.simps)
  ultimately show ?thesis
    using C6_scenarios [of "[60]" "[62]"] by auto
qed

text \<open>
  C7, as stated: when no pattern occurs in the input, the run leaves the contents of the
  file unchanged. On a platform whose line separator is \<^verbatim>\<open>\n\<close>, the file with the bytes
  \<^verbatim>\<open>a\r\n\<close> refutes it: no pattern occurs, the text read is \<^verbatim>\<open>a\n\<close>, and that is what
  the file holds after the run.
\<close>

theorem C7_counterexample:
  "absent editor_replacements (read_newlines [97, 13, 10])
   \<and> map_option data (files crlf_world editor_path) = Some [97, 13, 10]
   \<and> fst (update_editor_classes crlf_world) = None
   \<and> map_option data (files (snd (update_editor_classes crlf_world)) editor_path)
       = Some [97, 10]"
proof -
  have "absent editor_replacements (read_newlines [97, 13, 10])"
    by (simp add: absent_def editor_replacements_def py_str_def sublist_code)
  moreover have "map_option data (files crlf_world editor_path) = Some [97, 13, 10]"
    by (simp add: crlf_world_def)
  ultimately show ?thesis
    by (simp add: crlf_world_run print_def) (simp add: crlf_world_def)
qed

text \<open>
  C7, amended: for a file that can be read and written and holds valid UTF-8, when no
  pattern occurs in the text read, the text written is the text read: the file then holds
  the encoding of that text with the line separators of the platform. Its bytes are the
  bytes it had whenever the newline translation of text mode gives the file's text back
  (on a platform whose line separator is \<^verbatim>\<open>\n\<close>: whenever the file holds no carriage
  return); all other files are untouched.
\<close>

theorem C7_no_match_rewrites_same_text:
  assumes "(script, path, R, msg) \<in> scripts"
    and "files w path = Some f" and "readable f" and "writable f"
    and "utf8_decode (data f) = Some txt"
    and "absent R (read_newlines txt)"
  shows "apply_replacements R (read_newlines txt) = Inr (read_newlines txt)
         \<and> (\<exists>out. utf8_encode (write_newlines (os w) (read_newlines txt)) = Some out
               \<and> files (snd (script w)) = (files w)(path \<mapsto> f\<lparr>data := out\<rparr>))
         \<and> (newline_stable (os w) txt \<longrightarrow> files (snd (script w)) = files w)
         \<and> (os w = Posix \<and> 13 \<notin> set txt \<longrightarrow> files (snd (script w)) = files w)"
proof -
  note S = scripts_run [OF assms(1)]
  have same: "replace_all R (read_newlines txt) = read_newlines txt"
    using S(4) assms(6) by (rule absent_replace_all)
  from run_script_written [OF S(2,3) assms(2-5), of msg] same obtain out
    where out: "utf8_encode (write_newlines (os w) (read_newlines txt)) = Some out"
      and run: "script w = print (w\<lparr>files := (files w)(path \<mapsto> f\<lparr>data := out\<rparr>)\<rparr>) msg"
    using S(1) by auto
  from run have fs: "files (snd (script w)) = (files w)(path \<mapsto> f\<lparr>data := out\<rparr>)"
    by (simp add: print_def)
  have stable: "files (snd (script w)) = files w" if "newline_stable (os w) txt"
  proof -
    from that out have "utf8_encode txt = Some out"
      by (simp add: newline_stable_def)
    moreover from assms(5) have "utf8_encode txt = Some (data f)"
      by (rule utf8_roundtrip)
    ultimately have "out = data f" by simp
    with fs assms(2) show ?thesis by (auto simp: fun_upd_idem_iff)
  qed
  from S(2) same have "apply_replacements R (read_newlines txt) = Inr (read_newlines txt)"
    by (simp add: apply_replacements_plain)
  with out fs stable show ?thesis
    by (auto simp: newline_stable_posix)
qed

theorem C7_witness:
  "(update_editor_classes, editor_path, editor_replacements, editor_message) \<in> scripts
   \<and> files lf_world editor_path = Some \<lparr>readable = True, writable = True, data = [97, 10]\<rparr>
   \<and> utf8_decode [97, 10] = Some [97, 10]
   \<and> absent editor_replacements (read_newlines [97, 10])
   \<and> os lf_world = Posix \<and> 13 \<notin> set [97, 10 :: nat]
   \<and> files (snd (update_editor_classes lf_world)) = files lf_world"
proof -
  let ?f = "\<lparr>readable = True, writable = True, data = [97, 10 :: byte]\<rparr>"
  have s: "(update_editor_classes, editor_path, editor_replacements, editor_message) \<in> scripts"
    by (simp add: scripts_def)
  have f: "files lf_world editor_path = Some ?f" "readable ?f" "writable ?f"
    by (simp_all add: lf_world_def)
  have d: "utf8_decode (data ?f) = Some [97, 10]"
    by (simp add: Let_def)
  have a: "absent editor_replacements (read_newlines [97, 10])"
    by (simp add: absent_def editor_replacements_def py_str_def sublist_code)
  have p: "os lf_world = Posix" "13 \<notin> set [97, 10 :: nat]"
    by (simp_all add: lf_world_def)
  from C7_no_match_rewrites_same_text [OF s f d a] p
  have "files (snd (update_editor_classes lf_world)) = files lf_world"
    by blast
  with s f(1) d a p show ?thesis by simp
qed

text \<open>
  C8, as stated: the run aborts with a file-access error exactly when the file is missing,
  unreadable or unwritable. A file that can be read but not written and does not hold
  valid UTF-8 refutes it: the run ends at the read with the decoding error and never tries
  to open the file for writing.
\<close>

theorem C8_counterexample:
  "map_option writable (files locked_world editor_path) = Some False
   \<and> update_editor_classes locked_world = (Some (Raised UnicodeDecodeError), locked_world)"
proof -
  let ?f = "\<lparr>readable = True, writable = False, data = [255 :: byte]\<rparr>"
  have f: "files locked_world editor_path = Some ?f" "readable ?f"
    by (simp_all add: locked_world_def)
  have d: "utf8_decode (data ?f) = None"
    by (simp add: Let_def)
  from run_script_undecodable [OF f d] f(1) show ?thesis
    by (simp add: update_editor_classes_def)
qed

text \<open>
  C8, amended: a run of either script ends in one of five ways, decided in the order of
  the script. It aborts with \<^verbatim>\<open>FileNotFoundError\<close> exactly when the file is missing; with
  \<^verbatim>\<open>PermissionError\<close> exactly when the file is unreadable, or readable, valid UTF-8 and
  unwritable; with \<^verbatim>\<open>UnicodeDecodeError\<close> exactly when the file is readable and its bytes
  are not valid UTF-8; with \<^verbatim>\<open>UnicodeEncodeError\<close> exactly when the file was read and
  written and the standard output cannot encode the acknowledgment; and it succeeds
  otherwise. No exception is caught: a run that aborts prints nothing, and one that aborts
  before the write leaves the world as it was; a run that succeeds prints the
  acknowledgment.
\<close>

theorem C8_failures:
  assumes "(script, path, R, msg) \<in> scripts" and "script w = (res, w')"
  shows "(res = Some (Raised FileNotFoundError) \<longleftrightarrow> files w path = None)
   \<and> (res = Some (Raised PermissionError) \<longleftrightarrow>
        (\<exists>f. files w path = Some f \<and> (\<not> readable f \<or> (valid_utf8 (data f) \<and> \<not> writable f))))
   \<and> (res = Some (Raised UnicodeDecodeError) \<longleftrightarrow>
        (\<exists>f. files w path = Some f \<and> readable f \<and> \<not> valid_utf8 (data f)))
   \<and> (res = Some (Raised UnicodeEncodeError) \<longleftrightarrow>
        (\<exists>f. files w path = Some f \<and> readable f \<and> writable f \<and> valid_utf8 (data f)
             \<and> \<not> stdout_encodes w msg))
   \<and> (res = None \<longleftrightarrow>
        (\<exists>f. files w path = Some f \<and> readable f \<and> writable f \<and> valid_utf8 (data f)
             \<and> stdout_encodes w msg))
   \<and> res \<in> {None, Some (Raised FileNotFoundError), Some (Raised PermissionError),
              Some (Raised UnicodeDecodeError), Some (Raised UnicodeEncodeError)}
   \<and> (res \<noteq> None \<longrightarrow> stdout w' = stdout w)
   \<and> (res = None \<longrightarrow> stdout w' = stdout w @ [msg])
   \<and> (res \<noteq> None \<and> res \<noteq> Some (Raised UnicodeEncodeError) \<longrightarrow> w' = w)"
proof -
  note S = scripts_run [OF assms(1)]
  show ?thesis
  proof (cases "files w path")
    case None
    with run_script_missing [OF None, of R msg] assms(2) S(1) show ?thesis
      by auto
  next
    case (Some f)
    show ?thesis
    proof (cases "readable f")
      case False
      with run_script_unreadable [OF Some False, of R msg] assms(2) S(1) Some show ?thesis
        by auto
    next
      case r: True
      show ?thesis
      proof (cases "utf8_decode (data f)")
        case None
        then have "\<not> valid_utf8 (data f)" by (simp add: valid_utf8_iff)
        with run_script_undecodable [OF Some r None, of R msg] assms(2) S(1) Some r
        show ?thesis by auto
      next
        case d: (Some chars)
        then have v: "valid_utf8 (data f)" by (simp add: valid_utf8_iff)
        show ?thesis
        proof (cases "writable f")
          case False
          with run_script_unwritable [OF S(2) Some r d False, of msg] assms(2) S(1) Some r v
          show ?thesis by auto
        next
          case True
          from run_script_written [OF S(2,3) Some r True d, of msg] obtain out
            where "script w = print (w\<lparr>files := (files w)(path \<mapsto> f\<lparr>data := out\<rparr>)\<rparr>) msg"
            using S(1) by auto
          with assms(2) Some r v True show ?thesis
            by (auto simp: print_def split: if_splits)
        qed
      qed
    qed
  qed
qed

theorem C8_witness:
  "(update_editor_classes, editor_path, editor_replacements, editor_message) \<in> scripts
   \<and> files empty_world editor_path = None
   \<and> update_editor_classes empty_world = (Some (Raised FileNotFoundError), empty_world)"
proof -
  have s: "(update_editor_classes, editor_path, editor_replacements, editor_message) \<in> scripts"
    by (simp add: scripts_def)
  have n: "files empty_world editor_path = None"
    by (simp add: empty_world_def)
  obtain res w' where run: "update_editor_classes empty_world = (res, w')"
    by (cases "update_editor_classes empty_world")
  from C8_failures [OF s run] n have "res = Some (Raised FileNotFoundError)" "w' = empty_world"
    by auto
  with s n run show ?thesis by simp
qed

text \<open>
  C9: no pattern of the two scripts holds a special character of the regular-expression
  language, and on every input the loop with \<^verbatim>\<open>re.sub\<close> gives what the loop with plain
  literal replacement (\<open>replace_all\<close>, built on \<open>str_replace\<close>) gives.
\<close>

theorem C9_regex_is_literal:
  "(\<forall>(p, r) \<in> set (editor_replacements @ viewer_replacements). \<forall>c \<in> set p. \<not> is_meta c)
   \<and> apply_replacements editor_replacements B = Inr (replace_all editor_replacements B)
   \<and> apply_replacements viewer_replacements B = Inr (replace_all viewer_replacements B)"
proof -
  have "\<forall>(p, r) \<in> set (editor_replacements @ viewer_replacements). \<forall>c \<in> set p. \<not> is_meta c"
    using editor_rules_plain viewer_rules_plain
    by (auto simp: rules_plain_def plain_def)
  then show ?thesis
    by (simp add: apply_replacements_plain editor_rules_plain viewer_rules_plain)
qed

theorem C9_witness:
  \<open>apply_replacements editor_replacements (py_str ''<td className="subject-code">'')
     = Inr (py_str ''<td className="editor-subject-code">'')
   \<and> apply_replacements viewer_replacements (py_str ''<td className="subject-code">'')
     = Inr (py_str ''<td className="viewer-subject-code">'')\<close>
  using C9_regex_is_literal [of \<open>py_str ''<td className="subject-code">''\<close>]
  by (simp add: editor_replacements_def viewer_replacements_def py_str_def str_replace.simps)

text \<open>
  C10: for either script and every input, the output is the input with \<^verbatim>\<open>editor-\<close>
  (\<^verbatim>\<open>viewer-\<close> for the viewer script) inserted immediately after \<^verbatim>\<open>className="\<close> at each
  matched occurrence, that is at every position of the input where a pattern of the rule
  list begins, and nowhere else, every other character kept in order; no other string is
  the input with these insertions. The number of matches of the run is the number of
  positions of the input where a pattern of the list begins; the length of the output is
  the length of the input plus 7 times the number of matches, and the output is never
  shorter than the input.
\<close>

theorem C10_prefix_at_each_match:
  "(\<exists>out. apply_replacements editor_replacements B = Inr out
      \<and> inserted_at editor_replacements class_attr (py_str ''editor-'')
            (total_matches editor_replacements B) B out
      \<and> (\<forall>n t. inserted_at editor_replacements class_attr (py_str ''editor-'') n B t
            \<longrightarrow> n = total_matches editor_replacements B \<and> t = out)
      \<and> total_matches editor_replacements B = occurrences editor_replacements B
      \<and> length out = length B + 7 * total_matches editor_replacements B
      \<and> length B \<le> length out)
   \<and> (\<exists>out. apply_replacements viewer_replacements B = Inr out
      \<and> inserted_at viewer_replacements class_attr (py_str ''viewer-'')
            (total_matches viewer_replacements B) B out
      \<and> (\<forall>n t. inserted_at viewer_replacements class_attr (py_str ''viewer-'') n B t
            \<longrightarrow> n = total_matches viewer_replacements B \<and> t = out)
      \<and> total_matches viewer_replacements B = occurrences viewer_replacements B
      \<and> length out = length B + 7 * total_matches viewer_replacements B
      \<and> length B \<le> length out)"
proof -
  have "length (py_str ''editor-'') = 7" and "length (py_str ''viewer-'') = 7"
    by (simp_all add: py_str_def)
  with prefixing_output [OF editor_rules_plain editor_prefixing, of B]
    prefixing_output [OF viewer_rules_plain viewer_prefixing, of B]
  show ?thesis by simp
qed

theorem C10_witness:
  \<open>apply_replacements editor_replacements (py_str ''className="x" className="subject-code"'')
     = Inr (py_str ''className="x" className="editor-subject-code"'')
   \<and> total_matches editor_replacements (py_str ''className="x" className="subject-code"'') = 1
   \<and> occurrences editor_replacements (py_str ''className="x" className="subject-code"'') = 1
   \<and> inserted_at editor_replacements class_attr (py_str ''editor-'') 1
        (py_str ''className="x" className="subject-code"'')
        (py_str ''className="x" className="editor-subject-code"'')
   \<and> \<not> inserted_at editor_replacements class_attr (py_str ''editor-'') 1
        (py_str ''className="x" className="subject-code"'')
        (py_str ''className="editor-x" className="subject-code"'')\<close>
proof -
  let ?B = \<open>py_str ''className="x" className="subject-code"''\<close>
  let ?good = \<open>py_str ''className="x" className="editor-subject-code"''\<close>
  let ?bad = \<open>py_str ''className="editor-x" className="subject-code"''\<close>
  have a: "apply_replacements editor_replacements ?B = Inr ?good"
    by (simp add: apply_replacements_plain editor_rules_plain)
       (simp add: editor_replacements_def py_str_def str_replace.simps)
  have "\<forall>(p, r) \<in> set editor_replacements. p \<noteq> []"
    using editor_prefixing by (intro compatible_nonempty prefixing_compatible)
  then have b: "total_matches editor_replacements ?B = 1"
    by (simp add: total_matches_plain editor_rules_plain)
       (simp add: editor_replacements_def py_str_def str_replace.simps str_count.simps)
  have c: "?bad \<noteq> ?good"
    by (simp add: py_str_def)
  from C10_prefix_at_each_match [of ?B] obtain out
    where o: "apply_replacements editor_replacements ?B = Inr out"
      "inserted_at editor_replacements class_attr (py_str ''editor-'')
         (total_matches editor_replacements ?B) ?B out"
      "\<And>n t. inserted_at editor_replacements class_attr (py_str ''editor-'') n ?B t
         \<Longrightarrow> t = out"
      "total_matches editor_replacements ?B = occurrences editor_replacements ?B"
    by blast
  from a o(1) have out: "out = ?good" by simp
  from o(3) [of 1 ?bad] c have "\<not> inserted_at editor_replacements class_attr
      (py_str ''editor-'') 1 ?B ?bad"
    unfolding out by blast
  with a b o(2,4) show ?thesis
    unfolding out by simp
qed

end
